theory Spec2Isabelle
  imports Main "HOL-Library.Multiset"
begin

section \<open>The UptimeMonitor ledger contract and the observer node's probe\<close>

text \<open>
  The contract \<open>UptimeMonitor\<close> (Solidity 0.8) is embedded as functions on an explicit
  contract state. Every external function takes \<open>msg.sender\<close> and \<open>block.timestamp\<close>
  as arguments and returns either the reason of the revert (\<open>Inl\<close>) or the new state
  (\<open>Inr\<close>). A \<open>uint256\<close> is a natural number; the checked arithmetic of Solidity 0.8
  is written out: an operation whose result exceeds \<open>MAX_UINT256\<close> reverts.
\<close>

subsection \<open>Values, errors, events\<close>

type_synonym address = nat

definition MAX_UINT256 :: nat where
  "MAX_UINT256 = 2 ^ 256 - 1"

datatype error =
    Revert string
  | Panic
  | EnforcedPause
  | ExpectedPause
  | OwnableUnauthorizedAccount address
  | ERC20InsufficientBalance
  | ERC20InsufficientAllowance

definition checked_add :: "nat \<Rightarrow> nat \<Rightarrow> error + nat" where
  "checked_add a b = (if a + b \<le> MAX_UINT256 then Inr (a + b) else Inl Panic)"

definition checked_mul :: "nat \<Rightarrow> nat \<Rightarrow> error + nat" where
  "checked_mul a b = (if a * b \<le> MAX_UINT256 then Inr (a * b) else Inl Panic)"

datatype event =
    MonitoringNodeRegistered address nat
  | MonitoringNodeUnregistered address
  | MonitoringRequestCreated nat address string
  | MonitoringResultSubmitted nat address bool nat
  | ConsensusReached nat bool nat
  | RewardDistributed address nat
  | PenaltyApplied address nat

subsection \<open>The reward token\<close>

record token =
  balanceOf :: "address \<Rightarrow> nat"
  allowance :: "address \<Rightarrow> address \<Rightarrow> nat"

text \<open>
  Modelled from the spec: \<open>RewardToken\<close> inherits \<open>transfer\<close>, \<open>transferFrom\<close> and
  \<open>approve\<close> from the OpenZeppelin \<open>ERC20\<close> base contract, which is not among the
  sources. The spec describes the reward asset as a fungible balance ledger whose
  transfer failures (insufficient balance or allowance) abort the entire transaction.
  So a transfer that cannot be covered reverts, and one that can moves the amount
  and returns \<open>true\<close>. The first address argument is the caller of the token.
\<close>

definition move :: "address \<Rightarrow> address \<Rightarrow> nat \<Rightarrow> token \<Rightarrow> token" where
  "move src dst v t =
     (let b1 = (balanceOf t)(src := balanceOf t src - v)
      in t\<lparr>balanceOf := b1(dst := b1 dst + v)\<rparr>)"

definition ERC20_transfer :: "address \<Rightarrow> address \<Rightarrow> nat \<Rightarrow> token \<Rightarrow> error + (bool \<times> token)" where
  "ERC20_transfer caller dst v t =
     (if balanceOf t caller < v then Inl ERC20InsufficientBalance
      else Inr (True, move caller dst v t))"

definition ERC20_transferFrom ::
  "address \<Rightarrow> address \<Rightarrow> address \<Rightarrow> nat \<Rightarrow> token \<Rightarrow> error + (bool \<times> token)" where
  "ERC20_transferFrom caller src dst v t =
     (if allowance t src caller < v then Inl ERC20InsufficientAllowance
      else if balanceOf t src < v then Inl ERC20InsufficientBalance
      else Inr (True,
        move src dst v
          (t\<lparr>allowance := (allowance t)(src := (allowance t src)(caller := allowance t src caller - v))\<rparr>)))"

definition ERC20_approve :: "address \<Rightarrow> address \<Rightarrow> nat \<Rightarrow> token \<Rightarrow> error + (bool \<times> token)" where
  "ERC20_approve caller spender v t =
     Inr (True, t\<lparr>allowance := (allowance t)(caller := (allowance t caller)(spender := v))\<rparr>)"

subsection \<open>The contract's structs and storage\<close>

record MonitoringNode =
  nodeAddress :: address
  stake :: nat
  reputation :: nat
  totalChecks :: nat
  successfulChecks :: nat
  isActive :: bool
  registrationTime :: nat

record MonitoringRequest =
  req_id :: nat
  requester :: address
  url :: string
  interval :: nat
  timeout :: nat
  reward :: nat
  req_isActive :: bool
  createdAt :: nat
  lastCheckedAt :: nat

record MonitoringResult =
  node :: address
  isUp :: bool
  responseTime :: nat
  timestamp :: nat
  isSubmitted :: bool

record state =
  rewardToken :: token
  this :: address
  owner :: address
  paused :: bool
  minimumStake :: nat
  minimumReputation :: nat
  consensusThreshold :: nat
  maxResponseTime :: nat
  nextRequestId :: nat
  nextNodeId :: nat
  monitoringNodes :: "address \<Rightarrow> MonitoringNode"
  monitoringRequests :: "nat \<Rightarrow> MonitoringRequest"
  monitoringResults :: "nat \<Rightarrow> address \<Rightarrow> MonitoringResult"
  requestNodes :: "nat \<Rightarrow> address list"
  nodeRequests :: "address \<Rightarrow> nat list"
  activeNodes :: "address list"
  activeRequests :: "nat list"
  events :: "event list"

definition emit :: "event \<Rightarrow> state \<Rightarrow> state" where
  "emit e s = s\<lparr>events := events s @ [e]\<rparr>"

text \<open>Storage that was never written reads as zero.\<close>

definition zero_node :: MonitoringNode where
  "zero_node = \<lparr>nodeAddress = 0, stake = 0, reputation = 0, totalChecks = 0,
     successfulChecks = 0, isActive = False, registrationTime = 0\<rparr>"

definition zero_request :: MonitoringRequest where
  "zero_request = \<lparr>req_id = 0, requester = 0, url = [], interval = 0, timeout = 0,
     reward = 0, req_isActive = False, createdAt = 0, lastCheckedAt = 0\<rparr>"

definition zero_result :: MonitoringResult where
  "zero_result = \<lparr>node = 0, isUp = False, responseTime = 0, timestamp = 0,
     isSubmitted = False\<rparr>"

text \<open>
  The constructor: \<open>deployer\<close> becomes the owner, \<open>self\<close> is the address of the
  deployed contract, \<open>tok\<close> the state of the token contract at \<open>_rewardToken\<close>.
\<close>

definition constructor :: "address \<Rightarrow> address \<Rightarrow> token \<Rightarrow> state" where
  "constructor deployer self tok =
     \<lparr>rewardToken = tok, this = self, owner = deployer, paused = False,
      minimumStake = 1000 * 10 ^ 18, minimumReputation = 100, consensusThreshold = 66,
      maxResponseTime = 30000, nextRequestId = 1, nextNodeId = 1,
      monitoringNodes = (\<lambda>_. zero_node), monitoringRequests = (\<lambda>_. zero_request),
      monitoringResults = (\<lambda>_ _. zero_result), requestNodes = (\<lambda>_. []),
      nodeRequests = (\<lambda>_. []), activeNodes = [], activeRequests = [], events = []\<rparr>"

subsection \<open>Node management\<close>

definition registerNode :: "address \<Rightarrow> nat \<Rightarrow> state \<Rightarrow> error + state" where
  "registerNode sender now s =
     (if paused s then Inl EnforcedPause
      else if isActive (monitoringNodes s sender) then Inl (Revert ''Node already registered'')
      else case ERC20_transferFrom (this s) sender (this s) (minimumStake s) (rewardToken s) of
        Inl e \<Rightarrow> Inl e
      | Inr (ok, tok) \<Rightarrow>
          if \<not> ok then Inl (Revert ''Stake transfer failed'')
          else Inr (emit (MonitoringNodeRegistered sender (minimumStake s))
            (s\<lparr>rewardToken := tok,
               monitoringNodes := (monitoringNodes s)(sender :=
                 \<lparr>nodeAddress = sender, stake = minimumStake s, reputation = 100,
                  totalChecks = 0, successfulChecks = 0, isActive = True,
                  registrationTime = now\<rparr>),
               activeNodes := activeNodes s @ [sender]\<rparr>)))"

text \<open>
  The removal loop of \<open>unregisterNode\<close> and \<open>deactivateMonitoringRequest\<close>: the first
  entry equal to \<open>x\<close>, searched from index \<open>i\<close>, is overwritten with the last entry,
  and the last entry is popped.
\<close>

function swap_pop :: "'a \<Rightarrow> nat \<Rightarrow> 'a list \<Rightarrow> 'a list" where
  "swap_pop x i xs =
     (if i < length xs
      then (if xs ! i = x then butlast (xs[i := xs ! (length xs - 1)])
            else swap_pop x (Suc i) xs)
      else xs)"
  by pat_completeness auto
termination
  by (relation "measure (\<lambda>(x, i, xs). length xs - i)") auto

declare swap_pop.simps [simp del]

definition unregisterNode :: "address \<Rightarrow> nat \<Rightarrow> state \<Rightarrow> error + state" where
  "unregisterNode sender now s =
     (if \<not> isActive (monitoringNodes s sender) then Inl (Revert ''Node not registered or inactive'')
      else if \<not> stake (monitoringNodes s sender) > 0 then Inl (Revert ''No stake to withdraw'')
      else
        let stakeToReturn = stake (monitoringNodes s sender);
            s1 = s\<lparr>monitoringNodes := (monitoringNodes s)(sender :=
                     (monitoringNodes s sender)\<lparr>stake := 0, isActive := False\<rparr>),
                   activeNodes := swap_pop sender 0 (activeNodes s)\<rparr>
        in case ERC20_transfer (this s1) sender stakeToReturn (rewardToken s1) of
             Inl e \<Rightarrow> Inl e
           | Inr (ok, tok) \<Rightarrow>
               if \<not> ok then Inl (Revert ''Stake return failed'')
               else Inr (emit (MonitoringNodeUnregistered sender) (s1\<lparr>rewardToken := tok\<rparr>)))"

definition addStake :: "address \<Rightarrow> nat \<Rightarrow> nat \<Rightarrow> state \<Rightarrow> error + state" where
  "addStake sender now amount s =
     (if \<not> isActive (monitoringNodes s sender) then Inl (Revert ''Node not registered or inactive'')
      else if \<not> amount > 0 then Inl (Revert ''Amount must be greater than 0'')
      else case ERC20_transferFrom (this s) sender (this s) amount (rewardToken s) of
        Inl e \<Rightarrow> Inl e
      | Inr (ok, tok) \<Rightarrow>
          if \<not> ok then Inl (Revert ''Stake transfer failed'')
          else (case checked_add (stake (monitoringNodes s sender)) amount of
            Inl e \<Rightarrow> Inl e
          | Inr st \<Rightarrow>
              Inr (s\<lparr>rewardToken := tok,
                     monitoringNodes := (monitoringNodes s)(sender :=
                       (monitoringNodes s sender)\<lparr>stake := st\<rparr>)\<rparr>)))"

subsection \<open>Monitoring requests\<close>

text \<open>
  The loop of \<open>_assignNodesToRequest\<close>, from index \<open>i\<close>: the \<open>i\<close>-th active node is
  pushed to the request's committee and the request to the node's list. The index is
  below \<open>nodesToAssign\<close>, which is at most the length of \<open>activeNodes\<close>.
\<close>

function assign_loop :: "nat \<Rightarrow> nat \<Rightarrow> nat \<Rightarrow> state \<Rightarrow> state" where
  "assign_loop requestId nodesToAssign i s =
     (if i < nodesToAssign
      then (let addr = activeNodes s ! i
            in assign_loop requestId nodesToAssign (Suc i)
                 (s\<lparr>requestNodes := (requestNodes s)(requestId :=
                        requestNodes s requestId @ [addr]),
                    nodeRequests := (nodeRequests s)(addr :=
                        nodeRequests s addr @ [requestId])\<rparr>))
      else s)"
  by pat_completeness auto
termination
  by (relation "measure (\<lambda>(r, n, i, s). n - i)") auto

declare assign_loop.simps [simp del]

definition assignNodesToRequest :: "nat \<Rightarrow> state \<Rightarrow> error + state" where
  "assignNodesToRequest requestId s =
     (let nodesToAssign = (if length (activeNodes s) \<ge> 3 then 3 else length (activeNodes s))
      in if \<not> nodesToAssign > 0 then Inl (Revert ''No active nodes available'')
         else Inr (assign_loop requestId nodesToAssign 0 s))"

definition createMonitoringRequest ::
  "address \<Rightarrow> nat \<Rightarrow> string \<Rightarrow> nat \<Rightarrow> nat \<Rightarrow> nat \<Rightarrow> state \<Rightarrow> error + (nat \<times> state)" where
  "createMonitoringRequest sender now u intv tmo rewardPerCheck s =
     (if paused s then Inl EnforcedPause
      else if \<not> length u > 0 then Inl (Revert ''URL cannot be empty'')
      else if \<not> intv \<ge> 60 then Inl (Revert ''Interval must be at least 60 seconds'')
      else if \<not> tmo \<le> maxResponseTime s then Inl (Revert ''Timeout too high'')
      else if \<not> rewardPerCheck > 0 then Inl (Revert ''Reward must be greater than 0'')
      else case checked_add (nextRequestId s) 1 of
        Inl e \<Rightarrow> Inl e
      | Inr next \<Rightarrow>
          let requestId = nextRequestId s;
              s1 = s\<lparr>nextRequestId := next,
                     monitoringRequests := (monitoringRequests s)(requestId :=
                       \<lparr>req_id = requestId, requester = sender, url = u, interval = intv,
                        timeout = tmo, reward = rewardPerCheck, req_isActive = True,
                        createdAt = now, lastCheckedAt = now\<rparr>),
                     activeRequests := activeRequests s @ [requestId]\<rparr>
          in (case assignNodesToRequest requestId s1 of
                Inl e \<Rightarrow> Inl e
              | Inr s2 \<Rightarrow> Inr (requestId, emit (MonitoringRequestCreated requestId sender u) s2)))"

definition validRequest :: "nat \<Rightarrow> state \<Rightarrow> error option" where
  "validRequest requestId s =
     (if \<not> (requestId > 0 \<and> requestId < nextRequestId s) then Some (Revert ''Invalid request ID'')
      else if \<not> req_isActive (monitoringRequests s requestId) then Some (Revert ''Request not active'')
      else None)"

definition deactivateMonitoringRequest :: "address \<Rightarrow> nat \<Rightarrow> nat \<Rightarrow> state \<Rightarrow> error + state" where
  "deactivateMonitoringRequest sender now requestId s =
     (case validRequest requestId s of
        Some e \<Rightarrow> Inl e
      | None \<Rightarrow>
          if \<not> (requester (monitoringRequests s requestId) = sender \<or> sender = owner s)
          then Inl (Revert ''Not authorized'')
          else Inr (s\<lparr>monitoringRequests := (monitoringRequests s)(requestId :=
                        (monitoringRequests s requestId)\<lparr>req_isActive := False\<rparr>),
                      activeRequests := swap_pop requestId 0 (activeRequests s)\<rparr>))"

subsection \<open>Result submission, consensus and settlement\<close>

fun isNodeAssigned_loop :: "address list \<Rightarrow> address \<Rightarrow> bool" where
  "isNodeAssigned_loop [] n = False"
| "isNodeAssigned_loop (x # xs) n = (if x = n then True else isNodeAssigned_loop xs n)"

definition isNodeAssignedToRequest :: "nat \<Rightarrow> address \<Rightarrow> state \<Rightarrow> bool" where
  "isNodeAssignedToRequest requestId n s = isNodeAssigned_loop (requestNodes s requestId) n"

text \<open>
  \<open>_distributeRewards\<close>. \<open>distribute_body\<close> is the body of its loop for one
  committee member: a member that agreed with the consensus gets \<open>successfulChecks\<close>
  and \<open>reputation\<close> incremented and is sent the reward, and the event is emitted
  when the token returns \<open>true\<close>; a member that disagreed loses one reputation
  point while its reputation is above 1. \<open>distribute_loop\<close> runs the body over the
  committee in order.
\<close>

definition distribute_body :: "nat \<Rightarrow> bool \<Rightarrow> nat \<Rightarrow> address \<Rightarrow> state \<Rightarrow> error + state" where
  "distribute_body requestId consensusResult rwd addr s =
     (let result = monitoringResults s requestId addr
      in if isSubmitted result then
           (if isUp result = consensusResult then
              (case checked_add (successfulChecks (monitoringNodes s addr)) 1 of
                 Inl e \<Rightarrow> Inl e
               | Inr sc \<Rightarrow>
                  (case checked_add (reputation (monitoringNodes s addr)) 1 of
                     Inl e \<Rightarrow> Inl e
                   | Inr rep \<Rightarrow>
                      (let s1 = s\<lparr>monitoringNodes := (monitoringNodes s)(addr :=
                                  (monitoringNodes s addr)\<lparr>successfulChecks := sc,
                                     reputation := rep\<rparr>)\<rparr>
                       in case ERC20_transfer (this s1) addr rwd (rewardToken s1) of
                            Inl e \<Rightarrow> Inl e
                          | Inr (ok, tok) \<Rightarrow>
                              Inr (if ok then emit (RewardDistributed addr rwd)
                                                (s1\<lparr>rewardToken := tok\<rparr>)
                                   else s1\<lparr>rewardToken := tok\<rparr>))))
            else
              Inr (emit (PenaltyApplied addr 0)
                     (if reputation (monitoringNodes s addr) > 1
                      then s\<lparr>monitoringNodes := (monitoringNodes s)(addr :=
                               (monitoringNodes s addr)\<lparr>reputation :=
                                  reputation (monitoringNodes s addr) - 1\<rparr>)\<rparr>
                      else s)))
         else Inr s)"

fun distribute_loop :: "nat \<Rightarrow> bool \<Rightarrow> nat \<Rightarrow> address list \<Rightarrow> state \<Rightarrow> error + state" where
  "distribute_loop requestId consensusResult rwd [] s = Inr s"
| "distribute_loop requestId consensusResult rwd (addr # nodes) s =
     (case distribute_body requestId consensusResult rwd addr s of
        Inl e \<Rightarrow> Inl e
      | Inr s1 \<Rightarrow> distribute_loop requestId consensusResult rwd nodes s1)"

definition distributeRewards :: "nat \<Rightarrow> bool \<Rightarrow> state \<Rightarrow> error + state" where
  "distributeRewards requestId consensusResult s =
     distribute_loop requestId consensusResult (reward (monitoringRequests s requestId))
       (requestNodes s requestId) s"

text \<open>
  The counting loop of \<open>_checkConsensus\<close>, with its three accumulators
  \<open>(submittedCount, upCount, totalResponseTime)\<close>; \<open>count_body\<close> is the loop body
  for one committee member.
\<close>

definition count_body :: "(address \<Rightarrow> MonitoringResult) \<Rightarrow> address \<Rightarrow> nat \<times> nat \<times> nat
    \<Rightarrow> error + (nat \<times> nat \<times> nat)" where
  "count_body res n acc =
     (case acc of (submittedCount, upCount, totalResponseTime) \<Rightarrow>
        if isSubmitted (res n) then
          (case checked_add submittedCount 1 of
             Inl e \<Rightarrow> Inl e
           | Inr sc \<Rightarrow>
              (case (if isUp (res n) then checked_add upCount 1 else Inr upCount) of
                 Inl e \<Rightarrow> Inl e
               | Inr uc \<Rightarrow>
                  (case checked_add totalResponseTime (responseTime (res n)) of
                     Inl e \<Rightarrow> Inl e
                   | Inr tot \<Rightarrow> Inr (sc, uc, tot))))
        else Inr (submittedCount, upCount, totalResponseTime))"

fun count_loop :: "(address \<Rightarrow> MonitoringResult) \<Rightarrow> address list \<Rightarrow> nat \<times> nat \<times> nat
    \<Rightarrow> error + (nat \<times> nat \<times> nat)" where
  "count_loop res [] acc = Inr acc"
| "count_loop res (n # nodes) acc =
     (case count_body res n acc of
        Inl e \<Rightarrow> Inl e
      | Inr acc' \<Rightarrow> count_loop res nodes acc')"

definition checkConsensus :: "nat \<Rightarrow> nat \<Rightarrow> state \<Rightarrow> error + state" where
  "checkConsensus now requestId s =
     (let nodes = requestNodes s requestId
      in case count_loop (monitoringResults s requestId) nodes (0, 0, 0) of
           Inl e \<Rightarrow> Inl e
         | Inr (submittedCount, upCount, totalResponseTime) \<Rightarrow>
             if submittedCount = length nodes then
               (case checked_mul upCount 100 of
                  Inl e \<Rightarrow> Inl e
                | Inr lhs \<Rightarrow>
                   (case checked_mul submittedCount (consensusThreshold s) of
                      Inl e \<Rightarrow> Inl e
                    | Inr rhs \<Rightarrow>
                       (let consensusIsUp = (lhs \<ge> rhs);
                            averageResponseTime =
                              (if submittedCount > 0 then totalResponseTime div submittedCount else 0)
                        in case distributeRewards requestId consensusIsUp
                                  (emit (ConsensusReached requestId consensusIsUp averageResponseTime) s) of
                             Inl e \<Rightarrow> Inl e
                           | Inr s1 \<Rightarrow>
                               Inr (s1\<lparr>monitoringRequests := (monitoringRequests s1)(requestId :=
                                      (monitoringRequests s1 requestId)\<lparr>lastCheckedAt := now\<rparr>)\<rparr>))))
             else Inr s)"

definition submitMonitoringResult ::
  "address \<Rightarrow> nat \<Rightarrow> nat \<Rightarrow> bool \<Rightarrow> nat \<Rightarrow> state \<Rightarrow> error + state" where
  "submitMonitoringResult sender now requestId up rt s =
     (if \<not> isActive (monitoringNodes s sender) then Inl (Revert ''Node not registered or inactive'')
      else case validRequest requestId s of
        Some e \<Rightarrow> Inl e
      | None \<Rightarrow>
          if isSubmitted (monitoringResults s requestId sender) then Inl (Revert ''Result already submitted'')
          else if \<not> isNodeAssignedToRequest requestId sender s
            then Inl (Revert ''Node not assigned to this request'')
          else (case checked_add (totalChecks (monitoringNodes s sender)) 1 of
                  Inl e \<Rightarrow> Inl e
                | Inr tc \<Rightarrow>
                    checkConsensus now requestId
                      (emit (MonitoringResultSubmitted requestId sender up rt)
                        (s\<lparr>monitoringResults := (monitoringResults s)(requestId :=
                               (monitoringResults s requestId)(sender :=
                                 \<lparr>node = sender, isUp = up, responseTime = rt, timestamp = now,
                                  isSubmitted = True\<rparr>)),
                             monitoringNodes := (monitoringNodes s)(sender :=
                               (monitoringNodes s sender)\<lparr>totalChecks := tc\<rparr>)\<rparr>))))"

subsection \<open>Administration\<close>

definition setMinimumStake :: "address \<Rightarrow> nat \<Rightarrow> nat \<Rightarrow> state \<Rightarrow> error + state" where
  "setMinimumStake sender now v s =
     (if sender \<noteq> owner s then Inl (OwnableUnauthorizedAccount sender)
      else Inr (s\<lparr>minimumStake := v\<rparr>))"

definition setConsensusThreshold :: "address \<Rightarrow> nat \<Rightarrow> nat \<Rightarrow> state \<Rightarrow> error + state" where
  "setConsensusThreshold sender now v s =
     (if sender \<noteq> owner s then Inl (OwnableUnauthorizedAccount sender)
      else if \<not> (v \<ge> 51 \<and> v \<le> 100) then Inl (Revert ''Threshold must be between 51-100'')
      else Inr (s\<lparr>consensusThreshold := v\<rparr>))"

text \<open>
  \<open>pause\<close> and \<open>unpause\<close> call \<open>_pause\<close> and \<open>_unpause\<close> of the OpenZeppelin
  \<open>Pausable\<close> base, which require the contract to be unpaused, respectively paused.
\<close>

definition pause :: "address \<Rightarrow> nat \<Rightarrow> state \<Rightarrow> error + state" where
  "pause sender now s =
     (if sender \<noteq> owner s then Inl (OwnableUnauthorizedAccount sender)
      else if paused s then Inl EnforcedPause
      else Inr (s\<lparr>paused := True\<rparr>))"

definition unpause :: "address \<Rightarrow> nat \<Rightarrow> state \<Rightarrow> error + state" where
  "unpause sender now s =
     (if sender \<noteq> owner s then Inl (OwnableUnauthorizedAccount sender)
      else if \<not> paused s then Inl ExpectedPause
      else Inr (s\<lparr>paused := False\<rparr>))"

definition emergencyWithdraw :: "address \<Rightarrow> nat \<Rightarrow> state \<Rightarrow> error + state" where
  "emergencyWithdraw sender now s =
     (if sender \<noteq> owner s then Inl (OwnableUnauthorizedAccount sender)
      else let balance = balanceOf (rewardToken s) (this s)
           in case ERC20_transfer (this s) (owner s) balance (rewardToken s) of
                Inl e \<Rightarrow> Inl e
              | Inr (ok, tok) \<Rightarrow>
                  if \<not> ok then Inl (Revert ''Transfer failed'')
                  else Inr (s\<lparr>rewardToken := tok\<rparr>))"

subsection \<open>Transactions\<close>

text \<open>
  A transaction is one external call by \<open>sender\<close> at time \<open>now\<close>, to the contract or
  (\<open>TokenApprove\<close>, \<open>TokenTransfer\<close>) to the token. A transaction that reverts
  leaves the state as it was.
\<close>

datatype call =
    RegisterNode
  | UnregisterNode
  | AddStake nat
  | CreateMonitoringRequest string nat nat nat
  | DeactivateMonitoringRequest nat
  | SubmitMonitoringResult nat bool nat
  | SetMinimumStake nat
  | SetConsensusThreshold nat
  | Pause
  | Unpause
  | EmergencyWithdraw
  | TokenApprove address nat
  | TokenTransfer address nat

definition token_call :: "error + (bool \<times> token) \<Rightarrow> state \<Rightarrow> error + state" where
  "token_call r s = (case r of Inl e \<Rightarrow> Inl e | Inr (ok, tok) \<Rightarrow> Inr (s\<lparr>rewardToken := tok\<rparr>))"

fun exec :: "address \<Rightarrow> nat \<Rightarrow> call \<Rightarrow> state \<Rightarrow> error + state" where
  "exec sender now RegisterNode s = registerNode sender now s"
| "exec sender now UnregisterNode s = unregisterNode sender now s"
| "exec sender now (AddStake amount) s = addStake sender now amount s"
| "exec sender now (CreateMonitoringRequest u intv tmo rwd) s =
     map_sum id snd (createMonitoringRequest sender now u intv tmo rwd s)"
| "exec sender now (DeactivateMonitoringRequest requestId) s =
     deactivateMonitoringRequest sender now requestId s"
| "exec sender now (SubmitMonitoringResult requestId up rt) s =
     submitMonitoringResult sender now requestId up rt s"
| "exec sender now (SetMinimumStake v) s = setMinimumStake sender now v s"
| "exec sender now (SetConsensusThreshold v) s = setConsensusThreshold sender now v s"
| "exec sender now Pause s = pause sender now s"
| "exec sender now Unpause s = unpause sender now s"
| "exec sender now EmergencyWithdraw s = emergencyWithdraw sender now s"
| "exec sender now (TokenApprove spender v) s =
     token_call (ERC20_approve sender spender v (rewardToken s)) s"
| "exec sender now (TokenTransfer dst v) s =
     token_call (ERC20_transfer sender dst v (rewardToken s)) s"

definition transact :: "address \<Rightarrow> nat \<Rightarrow> call \<Rightarrow> state \<Rightarrow> state" where
  "transact sender now c s = (case exec sender now c s of Inl e \<Rightarrow> s | Inr s' \<Rightarrow> s')"

fun run :: "(address \<times> nat \<times> call) list \<Rightarrow> state \<Rightarrow> state" where
  "run [] s = s"
| "run ((sender, now, c) # cs) s = run cs (transact sender now c s)"

text \<open>
  The states the contract can be in: deployed, then any number of successful calls. The
  contract never calls itself, so the sender of a call is not the contract.
\<close>

inductive reachable :: "state \<Rightarrow> bool" where
  deployed: "reachable (constructor deployer self tok)"
| called: "reachable s \<Longrightarrow> sender \<noteq> this s \<Longrightarrow> exec sender now c s = Inr s' \<Longrightarrow> reachable s'"

subsection \<open>The observer node's HTTP check\<close>

text \<open>
  \<open>httpCheck\<close> of \<open>MonitoringNode.js\<close>. The two readings of \<open>Date.now()\<close> and what
  the HTTP client met are arguments: a response with a status code, a timeout, or a
  connection error. The client resolves when \<open>validateStatus\<close> accepts the status and
  rejects otherwise; a rejection carries the response when there was one.
\<close>

datatype http_outcome = Response nat | Timeout | ConnectionError





subsection \<open>The consensus rule in the words of the specification\<close>

definition submitted_results :: "nat \<Rightarrow> state \<Rightarrow> MonitoringResult list" where
  "submitted_results requestId s =
     filter isSubmitted (map (monitoringResults s requestId) (requestNodes s requestId))"

definition spec_consensusIsUp :: "nat \<Rightarrow> MonitoringResult list \<Rightarrow> bool" where
  "spec_consensusIsUp threshold rs = (length (filter isUp rs) * 100 \<ge> length rs * threshold)"

definition spec_averageResponseTime :: "MonitoringResult list \<Rightarrow> nat" where
  "spec_averageResponseTime rs = sum_list (map responseTime rs) div length rs"

fun is_consensus :: "event \<Rightarrow> bool" where
  "is_consensus (ConsensusReached r c a) = True"
| "is_consensus _ = False"

definition new_events :: "state \<Rightarrow> state \<Rightarrow> event list" where
  "new_events s s' = drop (length (events s)) (events s')"

text \<open>
  A round of submissions for one request: each entry is a call of
  \<open>submitMonitoringResult\<close> with its sender, block time, \<open>isUp\<close> and response time;
  the calls are made in the order of the list and the first revert ends the run. The
  vote of an entry is its \<open>(isUp, responseTime)\<close> pair, and the consensus rule is
  restated on the multiset of votes.
\<close>

type_synonym submission = "address \<times> nat \<times> bool \<times> nat"

fun run_submissions :: "nat \<Rightarrow> submission list \<Rightarrow> state \<Rightarrow> error + state" where
  "run_submissions r [] s = Inr s"
| "run_submissions r ((a, now, up, rt) # subs) s =
     (case submitMonitoringResult a now r up rt s of
        Inl e \<Rightarrow> Inl e
      | Inr s1 \<Rightarrow> run_submissions r subs s1)"

definition vote :: "submission \<Rightarrow> bool \<times> nat" where
  "vote x = (fst (snd (snd x)), snd (snd (snd x)))"

definition votes_consensusIsUp :: "nat \<Rightarrow> (bool \<times> nat) multiset \<Rightarrow> bool" where
  "votes_consensusIsUp threshold M = (size (filter_mset fst M) * 100 \<ge> size M * threshold)"

definition votes_averageResponseTime :: "(bool \<times> nat) multiset \<Rightarrow> nat" where
  "votes_averageResponseTime M = sum_mset (image_mset snd M) div size M"

text \<open>The committee members of a request that have not submitted yet.\<close>

definition pending :: "nat \<Rightarrow> state \<Rightarrow> address list" where
  "pending r s = filter (\<lambda>n. \<not> isSubmitted (monitoringResults s r n)) (requestNodes s r)"

subsection \<open>Invariants and scenarios used below\<close>

text \<open>
  Request ids are handed out from 1 upwards; exactly the ids handed out so far have a
  committee.
\<close>

definition committees_ok :: "state \<Rightarrow> bool" where
  "committees_ok s \<longleftrightarrow>
     0 < nextRequestId s \<and> (\<forall>r. requestNodes s r = [] \<longleftrightarrow> r = 0 \<or> nextRequestId s \<le> r)"

text \<open>
  The registry of active nodes has no duplicates and holds active nodes only; no
  committee has duplicates; the contract itself is in neither.
\<close>

definition registry_ok :: "state \<Rightarrow> bool" where
  "registry_ok s \<longleftrightarrow>
     distinct (activeNodes s) \<and>
     (\<forall>a \<in> set (activeNodes s). isActive (monitoringNodes s a) \<and>
        1 \<le> reputation (monitoringNodes s a)) \<and>
     this s \<notin> set (activeNodes s) \<and>
     (\<forall>r. distinct (requestNodes s r) \<and> this s \<notin> set (requestNodes s r) \<and>
        (\<forall>n \<in> set (requestNodes s r). 1 \<le> reputation (monitoringNodes s n)))"

text \<open>
  The state of \<open>submitMonitoringResult\<close> when it calls \<open>_checkConsensus\<close>: the result
  is recorded, the sender's \<open>totalChecks\<close> is incremented and the submission event is
  emitted.
\<close>

definition recorded :: "address \<Rightarrow> nat \<Rightarrow> nat \<Rightarrow> bool \<Rightarrow> nat \<Rightarrow> state \<Rightarrow> state" where
  "recorded a now r up rt s =
     emit (MonitoringResultSubmitted r a up rt)
       (s\<lparr>monitoringResults := (monitoringResults s)(r := (monitoringResults s r)(a :=
              \<lparr>node = a, isUp = up, responseTime = rt, timestamp = now, isSubmitted = True\<rparr>)),
            monitoringNodes := (monitoringNodes s)(a :=
              (monitoringNodes s a)\<lparr>totalChecks := totalChecks (monitoringNodes s a) + 1\<rparr>)\<rparr>)"

text \<open>
  What \<open>_distributeRewards\<close> does to the record of a committee member with result
  \<open>res\<close>, and the event it emits for the member.
\<close>

definition settle_node :: "bool \<Rightarrow> MonitoringResult \<Rightarrow> MonitoringNode \<Rightarrow> MonitoringNode" where
  "settle_node c res nd =
     (if isSubmitted res then
        (if isUp res = c
         then nd\<lparr>successfulChecks := successfulChecks nd + 1, reputation := reputation nd + 1\<rparr>
         else nd\<lparr>reputation := (if reputation nd > 1 then reputation nd - 1 else reputation nd)\<rparr>)
      else nd)"

definition settle_event :: "bool \<Rightarrow> nat \<Rightarrow> (address \<Rightarrow> MonitoringResult) \<Rightarrow> address \<Rightarrow> event" where
  "settle_event c w res n = (if isUp (res n) = c then RewardDistributed n w else PenaltyApplied n 0)"

text \<open>
  The fixture of the contract's test suite: the owner is address 1, the nodes are 11, 12
  and 13, the requester is 20 and the contract is deployed at 100. Every node and the
  requester hold 10000 tokens, the contract holds 1000000 tokens.
\<close>

definition ether :: nat where
  "ether = 10 ^ 18"

definition fixture_token :: token where
  "fixture_token =
     \<lparr>balanceOf = (\<lambda>_. 0)(11 := 10000 * ether, 12 := 10000 * ether, 13 := 10000 * ether,
         20 := 10000 * ether, 100 := 1000000 * ether),
      allowance = (\<lambda>_ _. 0)\<rparr>"

definition deployed_state :: state where
  "deployed_state = constructor 1 100 fixture_token"

definition approved_state :: state where
  "approved_state = transact 11 1 (TokenApprove 100 (1000 * ether)) deployed_state"

definition registered_state :: state where
  "registered_state =
     run [(11, 1, TokenApprove 100 (1000 * ether)), (11, 2, RegisterNode),
          (12, 3, TokenApprove 100 (1000 * ether)), (12, 4, RegisterNode),
          (13, 5, TokenApprove 100 (1000 * ether)), (13, 6, RegisterNode)] deployed_state"

definition requested_state :: state where
  "requested_state =
     transact 20 7 (CreateMonitoringRequest ''https://example.com'' 300 5000 ether) registered_state"

definition two_submitted_state :: state where
  "two_submitted_state =
     run [(11, 8, SubmitMonitoringResult 1 True 200),
          (12, 9, SubmitMonitoringResult 1 True 180)] requested_state"

definition settled_state :: state where
  "settled_state = transact 13 10 (SubmitMonitoringResult 1 False 5000) two_submitted_state"

text \<open>The owner sweeps the contract's token balance before the third submission.\<close>

definition drained_state :: state where
  "drained_state = transact 1 10 EmergencyWithdraw two_submitted_state"

section \<open>Properties\<close>

subsection \<open>Evaluating the scenarios\<close>

lemmas scenario_defs = deployed_state_def approved_state_def registered_state_def
  requested_state_def two_submitted_state_def settled_state_def drained_state_def
  fixture_token_def ether_def
  constructor_def transact_def zero_node_def zero_request_def zero_result_def MAX_UINT256_def

lemmas token_defs = token_call_def ERC20_approve_def ERC20_transferFrom_def ERC20_transfer_def
  move_def

lemmas request_defs = createMonitoringRequest_def assignNodesToRequest_def assign_loop.simps
  checked_add_def emit_def Let_def

lemmas submit_defs = submitMonitoringResult_def validRequest_def isNodeAssignedToRequest_def
  checkConsensus_def count_body_def distributeRewards_def distribute_body_def checked_mul_def

lemma registered_state_fields:
  "activeNodes registered_state = [11, 12, 13]"
  "paused registered_state = False"
  "nextRequestId registered_state = 1"
  "maxResponseTime registered_state = 30000"
  by (simp_all add: scenario_defs token_defs registerNode_def emit_def)

lemma requested_state_fields:
  "requestNodes requested_state 1 = [11, 12, 13]"
  "consensusThreshold requested_state = 66"
  "nextRequestId requested_state = 2"
  "paused requested_state = False"
  "owner requested_state = 1"
  by (simp_all add: scenario_defs token_defs registerNode_def request_defs)

subsection \<open>The token and the simple operations\<close>

lemma balanceOf_move:
  "balanceOf (move src dst v t) a =
     (if a = dst then (if dst = src then balanceOf t src - v else balanceOf t dst) + v
      else if a = src then balanceOf t src - v else balanceOf t a)"
  by (simp add: move_def Let_def)

lemma registerNode_Inr:
  "registerNode a t1 s = Inr s1 \<longleftrightarrow>
     \<not> paused s \<and> \<not> isActive (monitoringNodes s a) \<and>
     minimumStake s \<le> allowance (rewardToken s) a (this s) \<and>
     minimumStake s \<le> balanceOf (rewardToken s) a \<and>
     s1 = emit (MonitoringNodeRegistered a (minimumStake s))
            (s\<lparr>rewardToken := move a (this s) (minimumStake s)
                 ((rewardToken s)\<lparr>allowance := (allowance (rewardToken s))(a :=
                     (allowance (rewardToken s) a)(this s := allowance (rewardToken s) a (this s) - minimumStake s))\<rparr>),
               monitoringNodes := (monitoringNodes s)(a :=
                 \<lparr>nodeAddress = a, stake = minimumStake s, reputation = 100,
                  totalChecks = 0, successfulChecks = 0, isActive = True,
                  registrationTime = t1\<rparr>),
               activeNodes := activeNodes s @ [a]\<rparr>)"
  unfolding registerNode_def
  by (cases "ERC20_transferFrom (this s) a (this s) (minimumStake s) (rewardToken s)")
     (auto simp: ERC20_transferFrom_def split: if_splits)

lemma unregisterNode_Inr:
  "unregisterNode a t2 s = Inr s2 \<longleftrightarrow>
     isActive (monitoringNodes s a) \<and> 0 < stake (monitoringNodes s a) \<and>
     stake (monitoringNodes s a) \<le> balanceOf (rewardToken s) (this s) \<and>
     s2 = emit (MonitoringNodeUnregistered a)
            (s\<lparr>monitoringNodes := (monitoringNodes s)(a :=
                   (monitoringNodes s a)\<lparr>stake := 0, isActive := False\<rparr>),
                 activeNodes := swap_pop a 0 (activeNodes s),
                 rewardToken := move (this s) a (stake (monitoringNodes s a)) (rewardToken s)\<rparr>)"
  unfolding unregisterNode_def Let_def
  by (auto simp: ERC20_transfer_def split: if_splits)

lemma addStake_Inr:
  "addStake a t amount s = Inr s2 \<longleftrightarrow>
     isActive (monitoringNodes s a) \<and> 0 < amount \<and>
     amount \<le> allowance (rewardToken s) a (this s) \<and>
     amount \<le> balanceOf (rewardToken s) a \<and>
     stake (monitoringNodes s a) + amount \<le> MAX_UINT256 \<and>
     s2 = s\<lparr>rewardToken := move a (this s) amount
                 ((rewardToken s)\<lparr>allowance := (allowance (rewardToken s))(a :=
                     (allowance (rewardToken s) a)(this s := allowance (rewardToken s) a (this s) - amount))\<rparr>),
               monitoringNodes := (monitoringNodes s)(a :=
                 (monitoringNodes s a)\<lparr>stake := stake (monitoringNodes s a) + amount\<rparr>)\<rparr>"
  unfolding addStake_def
  by (auto simp: ERC20_transferFrom_def checked_add_def split: if_splits)

text \<open>
  Claim C6: for an address whose token balance is at least the minimum stake,
  \<open>registerNode\<close> followed by \<open>unregisterNode\<close> restores the address's token balance to
  exactly its value before the registration: the full stake comes back. Whenever both
  calls succeed the balance is restored; and they do succeed for an unpaused contract,
  an unregistered caller who holds and has approved the (positive) minimum stake.
\<close>

theorem C6_register_unregister_conserves_balance:
  "(registerNode a t1 s = Inr s1 \<and> unregisterNode a t2 s1 = Inr s2 \<longrightarrow>
      balanceOf (rewardToken s2) a = balanceOf (rewardToken s) a \<and>
      stake (monitoringNodes s1 a) = minimumStake s \<and> stake (monitoringNodes s2 a) = 0) \<and>
   (\<not> paused s \<and> \<not> isActive (monitoringNodes s a) \<and>
    minimumStake s \<le> balanceOf (rewardToken s) a \<and>
    minimumStake s \<le> allowance (rewardToken s) a (this s) \<and> 0 < minimumStake s \<longrightarrow>
      (\<exists>s1 s2. registerNode a t1 s = Inr s1 \<and> unregisterNode a t2 s1 = Inr s2))"
  by (auto simp add: registerNode_Inr unregisterNode_Inr emit_def balanceOf_move)

theorem C6_register_unregister_conserves_balance_witness:
  "balanceOf (rewardToken approved_state) 11 = 10000 * ether \<and>
   (\<exists>s1 s2. registerNode 11 2 approved_state = Inr s1 \<and> unregisterNode 11 3 s1 = Inr s2 \<and>
      balanceOf (rewardToken s1) 11 = 9000 * ether \<and>
      balanceOf (rewardToken s2) 11 = 10000 * ether)"
proof -
  have pre: "\<not> paused approved_state \<and> \<not> isActive (monitoringNodes approved_state 11) \<and>
      minimumStake approved_state \<le> balanceOf (rewardToken approved_state) 11 \<and>
      minimumStake approved_state \<le> allowance (rewardToken approved_state) 11 (this approved_state) \<and>
      0 < minimumStake approved_state"
    by (simp add: scenario_defs token_defs)
  have bal: "balanceOf (rewardToken approved_state) 11 = 10000 * ether"
    by (simp add: scenario_defs token_defs)
  from pre C6_register_unregister_conserves_balance [of 11 2 approved_state _ 3 _]
  obtain s1 s2 where r: "registerNode 11 2 approved_state = Inr s1"
    and u: "unregisterNode 11 3 s1 = Inr s2"
    by blast
  have "balanceOf (rewardToken s2) 11 = balanceOf (rewardToken approved_state) 11"
    using C6_register_unregister_conserves_balance [of 11 2 approved_state s1 3 s2] r u by blast
  moreover have "balanceOf (rewardToken s1) 11 = 9000 * ether"
    using r by (simp add: registerNode_Inr scenario_defs token_defs emit_def)
  ultimately show ?thesis using r u bal by auto
qed

subsection \<open>Request creation and committee assignment\<close>

lemma assign_loop_frame:
  "activeNodes (assign_loop r k i s) = activeNodes s \<and>
   nextRequestId (assign_loop r k i s) = nextRequestId s \<and>
   monitoringResults (assign_loop r k i s) = monitoringResults s \<and>
   this (assign_loop r k i s) = this s \<and>
   monitoringNodes (assign_loop r k i s) = monitoringNodes s \<and>
   (\<forall>r'. r' \<noteq> r \<longrightarrow> requestNodes (assign_loop r k i s) r' = requestNodes s r')"
proof (induction r k i s rule: assign_loop.induct)
  case (1 r k i s)
  show ?case
  proof (cases "i < k")
    case True
    then show ?thesis
      using "1.IH" [OF True refl] by (subst (1 2 3 4 5 6) assign_loop.simps) (simp add: Let_def)
  next
    case False
    then show ?thesis by (simp add: assign_loop.simps)
  qed
qed

lemma assign_loop_committee:
  "k \<le> length (activeNodes s) \<Longrightarrow> i \<le> k \<Longrightarrow>
   requestNodes (assign_loop r k i s) r =
     requestNodes s r @ take (k - i) (drop i (activeNodes s))"
proof (induction r k i s rule: assign_loop.induct)
  case (1 r k i s)
  show ?case
  proof (cases "i < k")
    case True
    have step: "take (k - i) (drop i (activeNodes s)) =
        activeNodes s ! i # take (k - Suc i) (drop (Suc i) (activeNodes s))"
    proof -
      have "k - i = Suc (k - Suc i)" using True by simp
      moreover have "drop i (activeNodes s) = activeNodes s ! i # drop (Suc i) (activeNodes s)"
        using True "1.prems" by (simp add: Cons_nth_drop_Suc)
      ultimately show ?thesis by simp
    qed
    show ?thesis
      using "1.IH" [OF True refl] True "1.prems"
      by (subst assign_loop.simps) (simp add: Let_def step)
  next
    case False
    then show ?thesis using "1.prems" by (simp add: assign_loop.simps)
  qed
qed

lemma createMonitoringRequest_committee:
  assumes "createMonitoringRequest a now u intv tmo rwd s = Inr (rid, s')"
  shows "rid = nextRequestId s" and "nextRequestId s' = Suc (nextRequestId s)"
    and "activeNodes s \<noteq> []" and "activeNodes s' = activeNodes s"
    and "requestNodes s' rid = requestNodes s rid @ take (min 3 (length (activeNodes s))) (activeNodes s)"
    and "r' \<noteq> rid \<Longrightarrow> requestNodes s' r' = requestNodes s r'"
    and "monitoringResults s' = monitoringResults s"
    and "this s' = this s"
    and "monitoringNodes s' = monitoringNodes s"
  using assms
  by (auto simp: createMonitoringRequest_def assignNodesToRequest_def checked_add_def Let_def emit_def
        assign_loop_frame assign_loop_committee min_def split: if_splits)

text \<open>
  Claim C8: a \<open>createMonitoringRequest\<close> call with an interval below 60 seconds, an empty
  URL, a reward of 0 or a timeout above the configured maximum is rejected; the
  transaction creates no request record and leaves the next request id as it was.
\<close>

theorem C8_invalid_request_rejected:
  "intv < 60 \<or> u = [] \<or> rewardPerCheck = 0 \<or> tmo > maxResponseTime s \<Longrightarrow>
     (\<exists>e. createMonitoringRequest sender now u intv tmo rewardPerCheck s = Inl e) \<and>
     transact sender now (CreateMonitoringRequest u intv tmo rewardPerCheck) s = s \<and>
     nextRequestId (transact sender now (CreateMonitoringRequest u intv tmo rewardPerCheck) s)
       = nextRequestId s \<and>
     monitoringRequests (transact sender now (CreateMonitoringRequest u intv tmo rewardPerCheck) s)
       = monitoringRequests s"
  by (auto simp: createMonitoringRequest_def transact_def)

theorem C8_invalid_request_rejected_witness:
  "(\<exists>e. createMonitoringRequest 20 7 ''https://example.com'' 30 5000 ether registered_state = Inl e) \<and>
   (\<exists>e. createMonitoringRequest 20 7 [] 300 5000 ether registered_state = Inl e) \<and>
   (\<exists>e. createMonitoringRequest 20 7 ''https://example.com'' 300 5000 0 registered_state = Inl e) \<and>
   (\<exists>e. createMonitoringRequest 20 7 ''https://example.com'' 300 30001 ether registered_state = Inl e) \<and>
   nextRequestId (transact 20 7 (CreateMonitoringRequest ''https://example.com'' 30 5000 ether)
     registered_state) = 1 \<and>
   (\<exists>rid s'. createMonitoringRequest 20 7 ''https://example.com'' 300 5000 ether registered_state
      = Inr (rid, s'))"
proof -
  have ok: "\<exists>rid s'. createMonitoringRequest 20 7 ''https://example.com'' 300 5000 ether
      registered_state = Inr (rid, s')"
    by (simp add: createMonitoringRequest_def assignNodesToRequest_def checked_add_def
          registered_state_fields MAX_UINT256_def ether_def)
  show ?thesis
    using ok
      C8_invalid_request_rejected [where intv = 30 and u = "''https://example.com''"
        and rewardPerCheck = ether and tmo = 5000 and s = registered_state and sender = 20 and now = 7]
      C8_invalid_request_rejected [where intv = 300 and u = "[]"
        and rewardPerCheck = ether and tmo = 5000 and s = registered_state and sender = 20 and now = 7]
      C8_invalid_request_rejected [where intv = 300 and u = "''https://example.com''"
        and rewardPerCheck = 0 and tmo = 5000 and s = registered_state and sender = 20 and now = 7]
      C8_invalid_request_rejected [where intv = 300 and u = "''https://example.com''"
        and rewardPerCheck = ether and tmo = 30001 and s = registered_state and sender = 20 and now = 7]
    by (simp add: registered_state_fields)
qed

subsection \<open>What each call leaves untouched\<close>

lemma distribute_body_Inr:
  "distribute_body r c w n s = Inr s' \<longleftrightarrow>
     (if isSubmitted (monitoringResults s r n) then
        (if isUp (monitoringResults s r n) = c then
           successfulChecks (monitoringNodes s n) + 1 \<le> MAX_UINT256 \<and>
           reputation (monitoringNodes s n) + 1 \<le> MAX_UINT256 \<and>
           w \<le> balanceOf (rewardToken s) (this s) \<and>
           s' = s\<lparr>monitoringNodes := (monitoringNodes s)(n := (monitoringNodes s n)
                      \<lparr>successfulChecks := successfulChecks (monitoringNodes s n) + 1,
                         reputation := reputation (monitoringNodes s n) + 1\<rparr>),
                   rewardToken := move (this s) n w (rewardToken s),
                   events := events s @ [RewardDistributed n w]\<rparr>
         else
           s' = s\<lparr>monitoringNodes := (monitoringNodes s)(n := (monitoringNodes s n)
                      \<lparr>reputation := (if reputation (monitoringNodes s n) > 1
                          then reputation (monitoringNodes s n) - 1
                          else reputation (monitoringNodes s n))\<rparr>),
                   events := events s @ [PenaltyApplied n 0]\<rparr>)
      else s' = s)"
  by (auto simp: distribute_body_def Let_def emit_def ERC20_transfer_def checked_add_def split: if_splits)

lemma distribute_body_frame:
  "distribute_body r c w n s = Inr s' \<Longrightarrow>
     monitoringResults s' = monitoringResults s \<and> requestNodes s' = requestNodes s \<and>
     nextRequestId s' = nextRequestId s \<and> monitoringRequests s' = monitoringRequests s \<and>
     consensusThreshold s' = consensusThreshold s \<and> this s' = this s \<and>
     activeNodes s' = activeNodes s"
  by (simp add: distribute_body_Inr split: if_splits)

lemma distribute_loop_Cons_Inr:
  "distribute_loop r c w (n # ns) s = Inr s' \<longleftrightarrow>
     (\<exists>s1. distribute_body r c w n s = Inr s1 \<and> distribute_loop r c w ns s1 = Inr s')"
  by (cases "distribute_body r c w n s") simp_all

lemma distribute_loop_frame:
  "distribute_loop r c w ns s = Inr s' \<Longrightarrow>
     monitoringResults s' = monitoringResults s \<and> requestNodes s' = requestNodes s \<and>
     nextRequestId s' = nextRequestId s \<and> monitoringRequests s' = monitoringRequests s \<and>
     consensusThreshold s' = consensusThreshold s \<and> this s' = this s \<and>
     activeNodes s' = activeNodes s"
proof (induction ns arbitrary: s)
  case Nil
  then show ?case by simp
next
  case (Cons n ns)
  from Cons.prems obtain s1 where b: "distribute_body r c w n s = Inr s1"
    and l: "distribute_loop r c w ns s1 = Inr s'"
    unfolding distribute_loop_Cons_Inr by blast
  show ?case using distribute_body_frame [OF b] Cons.IH [OF l] by simp
qed

lemma checkConsensus_frame:
  "checkConsensus now r s = Inr s' \<Longrightarrow>
     monitoringResults s' = monitoringResults s \<and> requestNodes s' = requestNodes s \<and>
     nextRequestId s' = nextRequestId s \<and>
     consensusThreshold s' = consensusThreshold s \<and> this s' = this s \<and>
     activeNodes s' = activeNodes s"
  by (auto simp: checkConsensus_def distributeRewards_def Let_def emit_def
        dest!: distribute_loop_frame split: sum.splits prod.splits if_splits)

lemma submit_frame:
  "submitMonitoringResult a now r up rt s = Inr s' \<Longrightarrow>
     requestNodes s' = requestNodes s \<and> nextRequestId s' = nextRequestId s \<and>
     consensusThreshold s' = consensusThreshold s \<and> this s' = this s \<and>
     activeNodes s' = activeNodes s \<and>
     monitoringResults s' = (monitoringResults s)(r := (monitoringResults s r)(a :=
        \<lparr>node = a, isUp = up, responseTime = rt, timestamp = now, isSubmitted = True\<rparr>))"
  by (auto simp: submitMonitoringResult_def emit_def
        dest!: checkConsensus_frame split: sum.splits option.splits if_splits)

lemma simple_op_frame:
  "registerNode a now s = Inr s' \<Longrightarrow>
     requestNodes s' = requestNodes s \<and> nextRequestId s' = nextRequestId s \<and>
     monitoringResults s' = monitoringResults s"
  "unregisterNode a now s = Inr s' \<Longrightarrow>
     requestNodes s' = requestNodes s \<and> nextRequestId s' = nextRequestId s \<and>
     monitoringResults s' = monitoringResults s"
  "addStake a now v s = Inr s' \<Longrightarrow>
     requestNodes s' = requestNodes s \<and> nextRequestId s' = nextRequestId s \<and>
     monitoringResults s' = monitoringResults s"
  by (simp_all add: registerNode_Inr unregisterNode_Inr addStake_Inr emit_def)

lemma deactivate_frame:
  "deactivateMonitoringRequest a now r s = Inr s' \<Longrightarrow>
     requestNodes s' = requestNodes s \<and> nextRequestId s' = nextRequestId s \<and>
     monitoringResults s' = monitoringResults s"
  by (cases "validRequest r s") (auto simp: deactivateMonitoringRequest_def split: if_splits)

lemma admin_frame:
  "setMinimumStake a now v s = Inr s' \<Longrightarrow>
     requestNodes s' = requestNodes s \<and> nextRequestId s' = nextRequestId s \<and>
     monitoringResults s' = monitoringResults s"
  "setConsensusThreshold a now v s = Inr s' \<Longrightarrow>
     requestNodes s' = requestNodes s \<and> nextRequestId s' = nextRequestId s \<and>
     monitoringResults s' = monitoringResults s"
  "pause a now s = Inr s' \<Longrightarrow>
     requestNodes s' = requestNodes s \<and> nextRequestId s' = nextRequestId s \<and>
     monitoringResults s' = monitoringResults s"
  "unpause a now s = Inr s' \<Longrightarrow>
     requestNodes s' = requestNodes s \<and> nextRequestId s' = nextRequestId s \<and>
     monitoringResults s' = monitoringResults s"
  "emergencyWithdraw a now s = Inr s' \<Longrightarrow>
     requestNodes s' = requestNodes s \<and> nextRequestId s' = nextRequestId s \<and>
     monitoringResults s' = monitoringResults s"
  "token_call res s = Inr s' \<Longrightarrow>
     requestNodes s' = requestNodes s \<and> nextRequestId s' = nextRequestId s \<and>
     monitoringResults s' = monitoringResults s"
  by (auto simp: setMinimumStake_def setConsensusThreshold_def pause_def unpause_def
        emergencyWithdraw_def token_call_def ERC20_transfer_def Let_def split: if_splits sum.splits)

lemma registry_frame:
  "addStake a now v s = Inr s' \<Longrightarrow> this s' = this s \<and> activeNodes s' = activeNodes s \<and>
     (\<forall>n. isActive (monitoringNodes s' n) = isActive (monitoringNodes s n) \<and>
        reputation (monitoringNodes s' n) = reputation (monitoringNodes s n))"
  "deactivateMonitoringRequest a now r s = Inr s' \<Longrightarrow> this s' = this s \<and>
     activeNodes s' = activeNodes s \<and> monitoringNodes s' = monitoringNodes s"
  "setMinimumStake a now v s = Inr s' \<Longrightarrow> this s' = this s \<and>
     activeNodes s' = activeNodes s \<and> monitoringNodes s' = monitoringNodes s"
  "setConsensusThreshold a now v s = Inr s' \<Longrightarrow> this s' = this s \<and>
     activeNodes s' = activeNodes s \<and> monitoringNodes s' = monitoringNodes s"
  "pause a now s = Inr s' \<Longrightarrow> this s' = this s \<and>
     activeNodes s' = activeNodes s \<and> monitoringNodes s' = monitoringNodes s"
  "unpause a now s = Inr s' \<Longrightarrow> this s' = this s \<and>
     activeNodes s' = activeNodes s \<and> monitoringNodes s' = monitoringNodes s"
  "emergencyWithdraw a now s = Inr s' \<Longrightarrow> this s' = this s \<and>
     activeNodes s' = activeNodes s \<and> monitoringNodes s' = monitoringNodes s"
  "token_call res s = Inr s' \<Longrightarrow> this s' = this s \<and>
     activeNodes s' = activeNodes s \<and> monitoringNodes s' = monitoringNodes s"
  "registerNode a now s = Inr s' \<Longrightarrow> this s' = this s"
  "unregisterNode a now s = Inr s' \<Longrightarrow> this s' = this s"
  by (auto simp: addStake_Inr registerNode_Inr unregisterNode_Inr emit_def
        deactivateMonitoringRequest_def setMinimumStake_def setConsensusThreshold_def pause_def
        unpause_def emergencyWithdraw_def token_call_def ERC20_transfer_def Let_def
        split: if_splits sum.splits option.splits)

lemma exec_frame:
  assumes "exec a now c s = Inr s'"
  shows "(\<exists>u intv tmo rwd. c = CreateMonitoringRequest u intv tmo rwd \<and>
            createMonitoringRequest a now u intv tmo rwd s = Inr (nextRequestId s, s')) \<or>
         (requestNodes s' = requestNodes s \<and> nextRequestId s' = nextRequestId s)"
proof (cases c)
  case (CreateMonitoringRequest u intv tmo rwd)
  with assms obtain rid where *: "createMonitoringRequest a now u intv tmo rwd s = Inr (rid, s')"
    by (cases "createMonitoringRequest a now u intv tmo rwd s") auto
  with createMonitoringRequest_committee(1) [OF *] CreateMonitoringRequest show ?thesis by simp
next
  case (SubmitMonitoringResult r up rt)
  with assms submit_frame show ?thesis by simp
qed (use assms simple_op_frame deactivate_frame admin_frame in \<open>simp_all\<close>)

lemma exec_committees_ok:
  assumes "committees_ok s" and "exec a now c s = Inr s'"
  shows "committees_ok s'"
  using exec_frame [OF assms(2)]
proof
  assume "\<exists>u intv tmo rwd. c = CreateMonitoringRequest u intv tmo rwd \<and>
            createMonitoringRequest a now u intv tmo rwd s = Inr (nextRequestId s, s')"
  then obtain u intv tmo rwd where
    cr: "createMonitoringRequest a now u intv tmo rwd s = Inr (nextRequestId s, s')" by blast
  note f = createMonitoringRequest_committee [OF cr]
  show ?thesis
    unfolding committees_ok_def
  proof (intro conjI allI)
    show "0 < nextRequestId s'" using f(2) by simp
    fix r
    show "requestNodes s' r = [] \<longleftrightarrow> r = 0 \<or> nextRequestId s' \<le> r"
    proof (cases "r = nextRequestId s")
      case True
      have "take (min 3 (length (activeNodes s))) (activeNodes s) \<noteq> []"
        using f(3) by simp
      then have "requestNodes s' r \<noteq> []" using f(5) f(1) True by simp
      moreover have "0 < r" "\<not> nextRequestId s' \<le> r"
        using True f(2) assms(1) by (simp_all add: committees_ok_def)
      ultimately show ?thesis by simp
    next
      case False
      have "requestNodes s' r = requestNodes s r" using f(6) [of r] False by simp
      moreover have "(requestNodes s r = []) = (r = 0 \<or> nextRequestId s \<le> r)"
        using assms(1) by (simp add: committees_ok_def)
      moreover have "(nextRequestId s' \<le> r) = (nextRequestId s \<le> r)"
        using False f(2) by auto
      ultimately show ?thesis by simp
    qed
  qed
next
  assume "requestNodes s' = requestNodes s \<and> nextRequestId s' = nextRequestId s"
  then show ?thesis using assms(1) by (simp add: committees_ok_def)
qed

lemma reachable_committees_ok: "reachable s \<Longrightarrow> committees_ok s"
proof (induction rule: reachable.induct)
  case (deployed deployer self tok)
  show ?case by (auto simp: committees_ok_def constructor_def)
next
  case (called s sender now c s')
  then show ?case using exec_committees_ok by blast
qed

lemma this_transact: "this (transact a now c s) = this s"
proof (cases "exec a now c s")
  case (Inl e)
  then show ?thesis by (simp add: transact_def)
next
  case (Inr s')
  have "this s' = this s"
  proof (cases c)
    case (CreateMonitoringRequest u intv tmo rwd)
    with Inr obtain rid where "createMonitoringRequest a now u intv tmo rwd s = Inr (rid, s')"
      by (cases "createMonitoringRequest a now u intv tmo rwd s") auto
    from createMonitoringRequest_committee(8) [OF this] show ?thesis .
  next
    case (SubmitMonitoringResult r up rt)
    with Inr submit_frame show ?thesis by simp
  qed (use Inr registry_frame in \<open>simp_all\<close>)
  with Inr show ?thesis by (simp add: transact_def)
qed

lemma this_run: "this (run cs s) = this s"
  by (induction cs arbitrary: s) (auto simp: this_transact)

lemma reachable_transact: "reachable s \<Longrightarrow> a \<noteq> this s \<Longrightarrow> reachable (transact a now c s)"
  by (cases "exec a now c s") (auto simp: transact_def intro: reachable.called)

lemma reachable_run:
  "reachable s \<Longrightarrow> this s \<notin> fst ` set cs \<Longrightarrow> reachable (run cs s)"
proof (induction cs arbitrary: s)
  case Nil
  then show ?case by simp
next
  case (Cons x cs)
  obtain a now c where x: "x = (a, now, c)" by (cases x) auto
  have "reachable (transact a now c s)" using Cons.prems x by (auto intro: reachable_transact)
  moreover have "this (transact a now c s) \<notin> fst ` set cs"
    using Cons.prems(2) by (simp add: this_transact)
  ultimately show ?case using Cons.IH x by simp
qed

lemma this_scenarios:
  "this deployed_state = 100" "this registered_state = 100" "this requested_state = 100"
  "this two_submitted_state = 100" "this settled_state = 100" "this approved_state = 100"
  "this drained_state = 100"
  by (simp_all add: registered_state_def requested_state_def two_submitted_state_def
        settled_state_def approved_state_def drained_state_def this_run this_transact)
     (simp_all add: deployed_state_def constructor_def)

lemma reachable_scenarios:
  "reachable deployed_state" "reachable registered_state" "reachable requested_state"
  "reachable two_submitted_state" "reachable settled_state" "reachable drained_state"
proof -
  show d: "reachable deployed_state"
    unfolding deployed_state_def by (rule reachable.deployed)
  show r: "reachable registered_state"
    unfolding registered_state_def by (rule reachable_run [OF d]) (simp add: this_scenarios)
  show q: "reachable requested_state"
    unfolding requested_state_def by (rule reachable_transact [OF r]) (simp add: this_scenarios)
  show t: "reachable two_submitted_state"
    unfolding two_submitted_state_def by (rule reachable_run [OF q]) (simp add: this_scenarios)
  show "reachable settled_state"
    unfolding settled_state_def by (rule reachable_transact [OF t]) (simp add: this_scenarios)
  show "reachable drained_state"
    unfolding drained_state_def by (rule reachable_transact [OF t]) (simp add: this_scenarios)
qed

text \<open>
  Claim C7: every successful \<open>createMonitoringRequest\<close> assigns to the new request
  exactly the first \<open>min 3 activeCount\<close> addresses of the active-node registry, in
  registry order; the call fails and creates nothing when no node is active; hence
  every request id handed out so far has a non-empty committee.
\<close>

theorem C7_committee_is_first_active_nodes:
  assumes "reachable s"
  shows "(createMonitoringRequest a now u intv tmo rwd s = Inr (rid, s') \<longrightarrow>
            requestNodes s' rid = take (min 3 (length (activeNodes s))) (activeNodes s) \<and>
            requestNodes s' rid \<noteq> []) \<and>
         (activeNodes s = [] \<longrightarrow>
            (\<exists>e. createMonitoringRequest a now u intv tmo rwd s = Inl e) \<and>
            transact a now (CreateMonitoringRequest u intv tmo rwd) s = s) \<and>
         (0 < r \<and> r < nextRequestId s \<longrightarrow> requestNodes s r \<noteq> [])"
proof (intro conjI impI)
  note ok = reachable_committees_ok [OF assms]
  show "requestNodes s r \<noteq> []" if "0 < r \<and> r < nextRequestId s"
    using ok that by (auto simp: committees_ok_def)
  show "\<exists>e. createMonitoringRequest a now u intv tmo rwd s = Inl e" if "activeNodes s = []"
    using createMonitoringRequest_committee(3) [of a now u intv tmo rwd s] that
    by (cases "createMonitoringRequest a now u intv tmo rwd s") auto
  then show "transact a now (CreateMonitoringRequest u intv tmo rwd) s = s" if "activeNodes s = []"
    using that by (auto simp: transact_def)
  assume cr: "createMonitoringRequest a now u intv tmo rwd s = Inr (rid, s')"
  note f = createMonitoringRequest_committee [OF cr]
  have "requestNodes s rid = []" using ok f(1) by (simp add: committees_ok_def)
  then show "requestNodes s' rid = take (min 3 (length (activeNodes s))) (activeNodes s)"
    using f(5) by simp
  then show "requestNodes s' rid \<noteq> []" using f(3) by simp
qed

theorem C7_committee_is_first_active_nodes_witness:
  "reachable registered_state \<and> activeNodes registered_state = [11, 12, 13] \<and>
   (\<exists>s'. createMonitoringRequest 20 7 ''https://example.com'' 300 5000 ether registered_state
      = Inr (1, s') \<and> requestNodes s' 1 = [11, 12, 13]) \<and>
   reachable deployed_state \<and> activeNodes deployed_state = [] \<and>
   transact 20 7 (CreateMonitoringRequest ''https://example.com'' 300 5000 ether) deployed_state
     = deployed_state \<and>
   reachable requested_state \<and> requestNodes requested_state 1 \<noteq> []"
proof -
  have "\<exists>s'. createMonitoringRequest 20 7 ''https://example.com'' 300 5000 ether
      registered_state = Inr (1, s')"
    by (simp add: createMonitoringRequest_def assignNodesToRequest_def checked_add_def
          registered_state_fields MAX_UINT256_def ether_def)
  then obtain s' where cr: "createMonitoringRequest 20 7 ''https://example.com'' 300 5000 ether
      registered_state = Inr (1, s')" by blast
  have 1: "requestNodes s' 1 = [11, 12, 13]"
    using C7_committee_is_first_active_nodes [OF reachable_scenarios(2), of 20 7
        "''https://example.com''" 300 5000 ether 1 s' 0] cr
    by (simp add: registered_state_fields)
  have e: "activeNodes deployed_state = []"
    by (simp add: deployed_state_def constructor_def)
  have 2: "transact 20 7 (CreateMonitoringRequest ''https://example.com'' 300 5000 ether)
      deployed_state = deployed_state"
    using C7_committee_is_first_active_nodes [OF reachable_scenarios(1), of 20 7
        "''https://example.com''" 300 5000 ether 0 deployed_state 0] e
    by simp
  have 3: "requestNodes requested_state 1 \<noteq> []"
    using C7_committee_is_first_active_nodes [OF reachable_scenarios(3), of 20 7
        "''https://example.com''" 300 5000 ether 0 requested_state 1]
    by (simp add: requested_state_fields)
  show ?thesis
    using cr 1 2 3 e reachable_scenarios by (simp add: registered_state_fields)
qed

subsection \<open>The pause\<close>

lemma paused_out:
  "rewardToken_update f1 (paused_update g s) = paused_update g (rewardToken_update f1 s)"
  "monitoringNodes_update f2 (paused_update g s) = paused_update g (monitoringNodes_update f2 s)"
  "monitoringRequests_update f3 (paused_update g s) = paused_update g (monitoringRequests_update f3 s)"
  "monitoringResults_update f4 (paused_update g s) = paused_update g (monitoringResults_update f4 s)"
  "activeNodes_update f5 (paused_update g s) = paused_update g (activeNodes_update f5 s)"
  "activeRequests_update f6 (paused_update g s) = paused_update g (activeRequests_update f6 s)"
  "events_update f7 (paused_update g s) = paused_update g (events_update f7 s)"
  "minimumStake_update f8 (paused_update g s) = paused_update g (minimumStake_update f8 s)"
  "consensusThreshold_update f9 (paused_update g s) = paused_update g (consensusThreshold_update f9 s)"
  by simp_all

lemma distribute_body_paused:
  "distribute_body r c w n (paused_update g s) =
     map_sum id (paused_update g) (distribute_body r c w n s)"
  by (simp add: distribute_body_def Let_def emit_def paused_out ERC20_transfer_def split: sum.splits)

lemma distribute_loop_paused:
  "distribute_loop r c w ns (paused_update g s) =
     map_sum id (paused_update g) (distribute_loop r c w ns s)"
  by (induction ns arbitrary: s) (simp_all add: distribute_body_paused split: sum.splits)

lemma checkConsensus_paused:
  "checkConsensus now r (paused_update g s) =
     map_sum id (paused_update g) (checkConsensus now r s)"
  by (simp add: checkConsensus_def distributeRewards_def Let_def emit_def paused_out
        distribute_loop_paused split: sum.splits prod.splits)

lemma submit_paused:
  "submitMonitoringResult a now r up rt (paused_update g s) =
     map_sum id (paused_update g) (submitMonitoringResult a now r up rt s)"
  by (simp add: submitMonitoringResult_def validRequest_def isNodeAssignedToRequest_def emit_def
       paused_out checkConsensus_paused split: sum.splits)

lemma unregister_paused:
  "unregisterNode a now (paused_update g s) =
     map_sum id (paused_update g) (unregisterNode a now s)"
  by (simp add: unregisterNode_def Let_def emit_def ERC20_transfer_def paused_out)

lemma addStake_paused:
  "addStake a now v (paused_update g s) =
     map_sum id (paused_update g) (addStake a now v s)"
  by (simp add: addStake_def ERC20_transferFrom_def checked_add_def paused_out)

lemma deactivate_paused:
  "deactivateMonitoringRequest a now r (paused_update g s) =
     map_sum id (paused_update g) (deactivateMonitoringRequest a now r s)"
  by (simp add: deactivateMonitoringRequest_def validRequest_def paused_out)

lemma admin_paused:
  "setMinimumStake a now v (paused_update g s) = map_sum id (paused_update g) (setMinimumStake a now v s)"
  "setConsensusThreshold a now v (paused_update g s) = map_sum id (paused_update g) (setConsensusThreshold a now v s)"
  "emergencyWithdraw a now (paused_update g s) = map_sum id (paused_update g) (emergencyWithdraw a now s)"
  by (simp_all add: setMinimumStake_def setConsensusThreshold_def emergencyWithdraw_def
        ERC20_transfer_def Let_def paused_out)

text \<open>
  Claim C10: while the contract is paused, exactly \<open>registerNode\<close> and
  \<open>createMonitoringRequest\<close> are blocked by the pause. \<open>submitMonitoringResult\<close>,
  \<open>unregisterNode\<close> and \<open>addStake\<close> (and likewise \<open>deactivateMonitoringRequest\<close>,
  the two setters and \<open>emergencyWithdraw\<close>, that is every call but the switches
  \<open>pause\<close> and \<open>unpause\<close> themselves) do not look at the pause flag: with the flag
  set to any value \<open>b\<close> they return the same error, or the same new state with the flag
  at \<open>b\<close>, as without; so a call that meets its other preconditions succeeds while
  paused just as it would unpaused.
\<close>

theorem C10_pause_blocks_only_registration_and_creation:
  "(paused s \<longrightarrow>
      registerNode a now s = Inl EnforcedPause \<and>
      createMonitoringRequest a now u intv tmo rwd s = Inl EnforcedPause) \<and>
   submitMonitoringResult a now r up rt (s\<lparr>paused := b\<rparr>) =
     map_sum id (\<lambda>s'. s'\<lparr>paused := b\<rparr>) (submitMonitoringResult a now r up rt s) \<and>
   unregisterNode a now (s\<lparr>paused := b\<rparr>) =
     map_sum id (\<lambda>s'. s'\<lparr>paused := b\<rparr>) (unregisterNode a now s) \<and>
   addStake a now v (s\<lparr>paused := b\<rparr>) =
     map_sum id (\<lambda>s'. s'\<lparr>paused := b\<rparr>) (addStake a now v s) \<and>
   deactivateMonitoringRequest a now r (s\<lparr>paused := b\<rparr>) =
     map_sum id (\<lambda>s'. s'\<lparr>paused := b\<rparr>) (deactivateMonitoringRequest a now r s) \<and>
   setMinimumStake a now v (s\<lparr>paused := b\<rparr>) =
     map_sum id (\<lambda>s'. s'\<lparr>paused := b\<rparr>) (setMinimumStake a now v s) \<and>
   setConsensusThreshold a now v (s\<lparr>paused := b\<rparr>) =
     map_sum id (\<lambda>s'. s'\<lparr>paused := b\<rparr>) (setConsensusThreshold a now v s) \<and>
   emergencyWithdraw a now (s\<lparr>paused := b\<rparr>) =
     map_sum id (\<lambda>s'. s'\<lparr>paused := b\<rparr>) (emergencyWithdraw a now s)"
  by (simp add: submit_paused unregister_paused addStake_paused deactivate_paused admin_paused
        registerNode_def createMonitoringRequest_def)

theorem C10_pause_blocks_only_registration_and_creation_witness:
  "pause 1 8 requested_state = Inr (requested_state\<lparr>paused := True\<rparr>) \<and>
   registerNode 14 9 (requested_state\<lparr>paused := True\<rparr>) = Inl EnforcedPause \<and>
   createMonitoringRequest 20 9 ''https://example.com'' 300 5000 ether
     (requested_state\<lparr>paused := True\<rparr>) = Inl EnforcedPause \<and>
   (\<exists>s'. submitMonitoringResult 11 9 1 True 200 requested_state = Inr s' \<and>
      submitMonitoringResult 11 9 1 True 200 (requested_state\<lparr>paused := True\<rparr>)
        = Inr (s'\<lparr>paused := True\<rparr>)) \<and>
   (\<exists>s'. unregisterNode 12 9 requested_state = Inr s' \<and>
      unregisterNode 12 9 (requested_state\<lparr>paused := True\<rparr>) = Inr (s'\<lparr>paused := True\<rparr>))"
proof -
  have p: "pause 1 8 requested_state = Inr (requested_state\<lparr>paused := True\<rparr>)"
    by (simp add: pause_def requested_state_fields)
  have "\<exists>s'. submitMonitoringResult 11 9 1 True 200 requested_state = Inr s'"
    by (simp add: scenario_defs token_defs registerNode_def request_defs submit_defs)
  then obtain s1 where s1: "submitMonitoringResult 11 9 1 True 200 requested_state = Inr s1"
    by blast
  have "\<exists>s'. unregisterNode 12 9 requested_state = Inr s'"
    by (simp add: unregisterNode_Inr scenario_defs token_defs registerNode_def request_defs)
  then obtain s2 where s2: "unregisterNode 12 9 requested_state = Inr s2"
    by blast
  note c14 = C10_pause_blocks_only_registration_and_creation
    [where s = "requested_state\<lparr>paused := True\<rparr>" and b = True and a = 14 and now = 9
       and u = "''https://example.com''" and intv = 300 and tmo = 5000 and rwd = ether]
  note c20 = C10_pause_blocks_only_registration_and_creation
    [where s = "requested_state\<lparr>paused := True\<rparr>" and b = True and a = 20 and now = 9
       and u = "''https://example.com''" and intv = 300 and tmo = 5000 and rwd = ether]
  note c11 = C10_pause_blocks_only_registration_and_creation
    [where s = requested_state and b = True and a = 11 and now = 9 and r = 1 and up = True
       and rt = 200]
  note c12 = C10_pause_blocks_only_registration_and_creation
    [where s = requested_state and b = True and a = 12 and now = 9]
  have a: "registerNode 14 9 (requested_state\<lparr>paused := True\<rparr>) = Inl EnforcedPause"
    using c14 by simp
  have b: "createMonitoringRequest 20 9 ''https://example.com'' 300 5000 ether
     (requested_state\<lparr>paused := True\<rparr>) = Inl EnforcedPause"
    using c20 by simp
  have c: "submitMonitoringResult 11 9 1 True 200 (requested_state\<lparr>paused := True\<rparr>)
        = Inr (s1\<lparr>paused := True\<rparr>)"
    using c11 s1 by simp
  have d: "unregisterNode 12 9 (requested_state\<lparr>paused := True\<rparr>) = Inr (s2\<lparr>paused := True\<rparr>)"
    using c12 s2 by simp
  show ?thesis using p a b c d s1 s2 by simp
qed

subsection \<open>The observer node's probe\<close>




subsection \<open>Consensus evaluation\<close>

lemma count_body_Inr:
  "count_body res n (sc, uc, tot) = Inr acc' \<longleftrightarrow>
     (if isSubmitted (res n) then
        sc + 1 \<le> MAX_UINT256 \<and> (isUp (res n) \<longrightarrow> uc + 1 \<le> MAX_UINT256) \<and>
        tot + responseTime (res n) \<le> MAX_UINT256 \<and>
        acc' = (sc + 1, (if isUp (res n) then uc + 1 else uc), tot + responseTime (res n))
      else acc' = (sc, uc, tot))"
  by (auto simp: count_body_def checked_add_def)

lemma count_loop_spec:
  "count_loop res ns (sc, uc, tot) = Inr (sc', uc', tot') \<Longrightarrow>
     sc' = sc + length (filter isSubmitted (map res ns)) \<and>
     uc' = uc + length (filter isUp (filter isSubmitted (map res ns))) \<and>
     tot' = tot + sum_list (map responseTime (filter isSubmitted (map res ns)))"
proof (induction ns arbitrary: sc uc tot)
  case Nil
  then show ?case by simp
next
  case (Cons n ns)
  from Cons.prems obtain acc1 where b: "count_body res n (sc, uc, tot) = Inr acc1"
    and l: "count_loop res ns acc1 = Inr (sc', uc', tot')"
    by (cases "count_body res n (sc, uc, tot)") simp_all
  obtain sc1 uc1 tot1 where acc1: "acc1 = (sc1, uc1, tot1)" by (cases acc1) auto
  show ?case
    using Cons.IH [OF l [unfolded acc1]] b [unfolded acc1 count_body_Inr]
    by (auto split: if_splits)
qed

lemma distribute_loop_events:
  "distribute_loop r c w ns s = Inr s' \<Longrightarrow>
     \<exists>evs. events s' = events s @ evs \<and> filter is_consensus evs = []"
proof (induction ns arbitrary: s)
  case Nil
  then show ?case by simp
next
  case (Cons n ns)
  from Cons.prems obtain s1 where b: "distribute_body r c w n s = Inr s1"
    and l: "distribute_loop r c w ns s1 = Inr s'"
    unfolding distribute_loop_Cons_Inr by blast
  from b have "\<exists>evs. events s1 = events s @ evs \<and> filter is_consensus evs = []"
    by (auto simp: distribute_body_Inr split: if_splits)
  with Cons.IH [OF l] show ?case by auto
qed

lemma checkConsensus_events:
  assumes "checkConsensus now r s = Inr s'"
  shows "\<exists>evs. events s' = events s @ evs \<and>
     filter is_consensus evs =
       (if length (submitted_results r s) = length (requestNodes s r)
        then [ConsensusReached r (spec_consensusIsUp (consensusThreshold s) (submitted_results r s))
                (spec_averageResponseTime (submitted_results r s))]
        else [])"
proof -
  from assms obtain sc uc tot where
    cl: "count_loop (monitoringResults s r) (requestNodes s r) (0, 0, 0) = Inr (sc, uc, tot)"
    by (cases "count_loop (monitoringResults s r) (requestNodes s r) (0, 0, 0)")
       (auto simp: checkConsensus_def Let_def)
  from count_loop_spec [OF cl]
  have sc: "sc = length (submitted_results r s)"
    and uc: "uc = length (filter isUp (submitted_results r s))"
    and tot: "tot = sum_list (map responseTime (submitted_results r s))"
    by (simp_all add: submitted_results_def)
  show ?thesis
  proof (cases "sc = length (requestNodes s r)")
    case False
    then show ?thesis using assms cl sc by (simp add: checkConsensus_def Let_def)
  next
    case True
    let ?c = "spec_consensusIsUp (consensusThreshold s) (submitted_results r s)"
    let ?a = "spec_averageResponseTime (submitted_results r s)"
    from assms cl True obtain s1 where
      d: "distributeRewards r ?c (emit (ConsensusReached r ?c ?a) s) = Inr s1"
      and s': "s' = s1\<lparr>monitoringRequests := (monitoringRequests s1)(r :=
                 (monitoringRequests s1 r)\<lparr>lastCheckedAt := now\<rparr>)\<rparr>"
      by (auto simp: checkConsensus_def Let_def checked_mul_def spec_consensusIsUp_def
            spec_averageResponseTime_def sc uc tot split: if_splits sum.splits)
    from distribute_loop_events [OF d [unfolded distributeRewards_def]]
    obtain evs where "events s1 = events s @ [ConsensusReached r ?c ?a] @ evs"
      and "filter is_consensus evs = []"
      by (auto simp: emit_def)
    then show ?thesis using True sc s' by simp
  qed
qed

lemma submit_events:
  assumes "submitMonitoringResult a now r up rt s = Inr s'"
  shows "\<exists>evs. events s' = events s @ evs \<and>
     filter is_consensus evs =
       (if length (submitted_results r s') = length (requestNodes s' r)
        then [ConsensusReached r (spec_consensusIsUp (consensusThreshold s) (submitted_results r s'))
                (spec_averageResponseTime (submitted_results r s'))]
        else [])"
proof -
  from assms obtain tc where
    cc: "checkConsensus now r
           (emit (MonitoringResultSubmitted r a up rt)
             (s\<lparr>monitoringResults := (monitoringResults s)(r := (monitoringResults s r)(a :=
                    \<lparr>node = a, isUp = up, responseTime = rt, timestamp = now,
                     isSubmitted = True\<rparr>)),
                  monitoringNodes := (monitoringNodes s)(a :=
                    (monitoringNodes s a)\<lparr>totalChecks := tc\<rparr>)\<rparr>)) = Inr s'"
    (is "checkConsensus now r ?s1 = _")
    by (auto simp: submitMonitoringResult_def split: if_splits option.splits sum.splits)
  have same: "submitted_results r s' = submitted_results r ?s1" "requestNodes s' r = requestNodes ?s1 r"
    "consensusThreshold ?s1 = consensusThreshold s"
    using checkConsensus_frame [OF cc] by (simp_all add: submitted_results_def emit_def)
  from checkConsensus_events [OF cc] obtain evs where
    "events s' = events ?s1 @ evs" and
    "filter is_consensus evs =
       (if length (submitted_results r ?s1) = length (requestNodes ?s1 r)
        then [ConsensusReached r (spec_consensusIsUp (consensusThreshold ?s1) (submitted_results r ?s1))
                (spec_averageResponseTime (submitted_results r ?s1))]
        else [])"
    by blast
  then have "events s' = events s @ (MonitoringResultSubmitted r a up rt # evs)"
    and "filter is_consensus (MonitoringResultSubmitted r a up rt # evs) =
       (if length (submitted_results r s') = length (requestNodes s' r)
        then [ConsensusReached r (spec_consensusIsUp (consensusThreshold s) (submitted_results r s'))
                (spec_averageResponseTime (submitted_results r s'))]
        else [])"
    unfolding same by (simp_all add: emit_def)
  then show ?thesis by blast
qed

lemma submit_new_events:
  assumes "submitMonitoringResult a now r up rt s = Inr s'"
  shows "filter is_consensus (new_events s s') =
       (if length (submitted_results r s') = length (requestNodes s' r)
        then [ConsensusReached r (spec_consensusIsUp (consensusThreshold s) (submitted_results r s'))
                (spec_averageResponseTime (submitted_results r s'))]
        else [])"
  using submit_events [OF assms] by (auto simp: new_events_def)

lemma settled_state_evaluated:
  "submitMonitoringResult 13 10 1 False 5000 two_submitted_state = Inr settled_state"
  "filter is_consensus (new_events two_submitted_state settled_state) = [ConsensusReached 1 True 1793]"
  "map (\<lambda>n. (isUp (monitoringResults settled_state 1 n), responseTime (monitoringResults settled_state 1 n)))
     (requestNodes settled_state 1) = [(True, 200), (True, 180), (False, 5000)]"
  "requestNodes two_submitted_state 1 = [11, 12, 13]"
  "consensusThreshold two_submitted_state = 66"
  by (simp_all add: scenario_defs token_defs registerNode_def request_defs submit_defs new_events_def)

text \<open>
  Claim C1: after a result submission the contract evaluates consensus exactly when
  the number of submitted results equals the committee size, and then
  \<open>consensusIsUp = (upCount * 100 \<ge> submittedCount * consensusThreshold)\<close>, where
  \<open>upCount\<close> counts the submitted results with \<open>isUp\<close>, and
  \<open>averageResponseTime = sum responseTime div submittedCount\<close>. In the example of the
  specification (committee of 3, threshold 66, submissions up 200 ms, up 180 ms, down
  5000 ms) the third submission emits \<open>ConsensusReached\<close> with up and 1793.
\<close>

theorem C1_consensus_rule:
  "(submitMonitoringResult a now r up rt s = Inr s' \<longrightarrow>
      filter is_consensus (new_events s s') =
        (if length (submitted_results r s') = length (requestNodes s' r)
         then [ConsensusReached r
                 (length (filter isUp (submitted_results r s')) * 100
                    \<ge> length (submitted_results r s') * consensusThreshold s)
                 (sum_list (map responseTime (submitted_results r s'))
                    div length (submitted_results r s'))]
         else [])) \<and>
   requestNodes two_submitted_state 1 = [11, 12, 13] \<and>
   consensusThreshold two_submitted_state = 66 \<and>
   submitMonitoringResult 13 10 1 False 5000 two_submitted_state = Inr settled_state \<and>
   map (\<lambda>n. (isUp (monitoringResults settled_state 1 n),
               responseTime (monitoringResults settled_state 1 n)))
     (requestNodes settled_state 1) = [(True, 200), (True, 180), (False, 5000)] \<and>
   filter is_consensus (new_events two_submitted_state settled_state)
     = [ConsensusReached 1 True 1793]"
  using submit_new_events [of a now r up rt s s'] settled_state_evaluated
  by (simp add: spec_consensusIsUp_def spec_averageResponseTime_def)

theorem C1_consensus_rule_witness:
  "submitMonitoringResult 13 10 1 False 5000 two_submitted_state = Inr settled_state \<and>
   length (submitted_results 1 settled_state) = 3 \<and>
   length (filter isUp (submitted_results 1 settled_state)) = 2 \<and>
   sum_list (map responseTime (submitted_results 1 settled_state)) = 5380 \<and>
   filter is_consensus (new_events two_submitted_state settled_state)
     = [ConsensusReached 1 ((2::nat) * 100 \<ge> 3 * 66) (5380 div 3)] \<and>
   (\<exists>s'. submitMonitoringResult 11 8 1 True 200 requested_state = Inr s' \<and>
      length (submitted_results 1 s') = 1 \<and> length (requestNodes s' 1) = 3 \<and>
      filter is_consensus (new_events requested_state s') = [])"
proof -
  have rs: "submitted_results 1 settled_state =
      map (monitoringResults settled_state 1) (requestNodes settled_state 1)"
    "length (submitted_results 1 settled_state) = 3"
    "length (filter isUp (submitted_results 1 settled_state)) = 2"
    "sum_list (map responseTime (submitted_results 1 settled_state)) = 5380"
    by (simp_all add: submitted_results_def scenario_defs token_defs registerNode_def
          request_defs submit_defs)
  have "\<exists>s'. submitMonitoringResult 11 8 1 True 200 requested_state = Inr s' \<and>
      length (submitted_results 1 s') = 1 \<and> length (requestNodes s' 1) = 3"
    by (simp add: submitted_results_def scenario_defs token_defs registerNode_def
          request_defs submit_defs)
  then obtain s1 where s1: "submitMonitoringResult 11 8 1 True 200 requested_state = Inr s1"
    "length (submitted_results 1 s1) = 1" "length (requestNodes s1 1) = 3"
    by blast
  have "filter is_consensus (new_events requested_state s1) = []"
    using C1_consensus_rule [of 11 8 1 True 200 requested_state s1] s1 by simp
  moreover have "filter is_consensus (new_events two_submitted_state settled_state)
     = [ConsensusReached 1 ((2::nat) * 100 \<ge> 3 * 66) (5380 div 3)]"
    using C1_consensus_rule [of 13 10 1 False 5000 two_submitted_state settled_state] rs
    by simp
  ultimately show ?thesis using rs s1 settled_state_evaluated(1) by auto
qed

subsection \<open>Duplicate submissions\<close>

lemma exec_keeps_submitted:
  assumes "exec a now c s = Inr s'" and "isSubmitted (monitoringResults s r n)"
  shows "isSubmitted (monitoringResults s' r n)"
proof (cases c)
  case (CreateMonitoringRequest u intv tmo rwd)
  with assms(1) obtain rid where "createMonitoringRequest a now u intv tmo rwd s = Inr (rid, s')"
    by (cases "createMonitoringRequest a now u intv tmo rwd s") auto
  from createMonitoringRequest_committee(7) [OF this] assms(2) show ?thesis by simp
next
  case (SubmitMonitoringResult r' up rt)
  with assms(1) have "submitMonitoringResult a now r' up rt s = Inr s'" by simp
  from submit_frame [OF this] assms(2) show ?thesis by auto
qed (use assms simple_op_frame deactivate_frame admin_frame in \<open>simp_all\<close>)

lemma transact_keeps_submitted:
  "isSubmitted (monitoringResults s r n) \<Longrightarrow>
   isSubmitted (monitoringResults (transact a now c s) r n)"
  by (cases "exec a now c s") (auto simp: transact_def dest: exec_keeps_submitted)

lemma run_keeps_submitted:
  "isSubmitted (monitoringResults s r n) \<Longrightarrow> isSubmitted (monitoringResults (run cs s) r n)"
  by (induction cs arbitrary: s) (auto simp: transact_keeps_submitted)

lemma submit_rejects_duplicate:
  "isSubmitted (monitoringResults s r n) \<Longrightarrow>
   \<exists>e. submitMonitoringResult n now r up rt s = Inl e"
  by (simp add: submitMonitoringResult_def split: option.splits)

text \<open>
  Claim C4: once a \<open>submitMonitoringResult\<close> call of an observer for a request id has
  succeeded, every later \<open>submitMonitoringResult\<close> call of the same observer for the
  same request id fails and leaves the state unchanged, whatever calls (of anyone,
  successful or not, and whether or not consensus was reached by them) came in between.
\<close>

theorem C4_duplicate_submission_always_fails:
  assumes "submitMonitoringResult n now r up rt s = Inr s1"
  shows "(\<exists>e. submitMonitoringResult n now' r up' rt' (run cs s1) = Inl e) \<and>
         transact n now' (SubmitMonitoringResult r up' rt') (run cs s1) = run cs s1"
proof -
  have "isSubmitted (monitoringResults s1 r n)"
    using submit_frame [OF assms] by simp
  then have "isSubmitted (monitoringResults (run cs s1) r n)"
    by (rule run_keeps_submitted)
  from submit_rejects_duplicate [OF this]
  obtain e where "submitMonitoringResult n now' r up' rt' (run cs s1) = Inl e" by blast
  then show ?thesis by (simp add: transact_def)
qed

theorem C4_duplicate_submission_always_fails_witness:
  "(\<exists>s1. submitMonitoringResult 11 8 1 True 200 requested_state = Inr s1 \<and>
      submitMonitoringResult 11 9 1 True 200 s1 = Inl (Revert ''Result already submitted'') \<and>
      (\<exists>e. submitMonitoringResult 11 11 1 False 0
         (run [(12, 9, SubmitMonitoringResult 1 True 180),
               (13, 10, SubmitMonitoringResult 1 False 5000)] s1) = Inl e))"
proof -
  have "\<exists>s1. submitMonitoringResult 11 8 1 True 200 requested_state = Inr s1 \<and>
      submitMonitoringResult 11 9 1 True 200 s1 = Inl (Revert ''Result already submitted'')"
    by (simp add: scenario_defs token_defs registerNode_def request_defs submit_defs)
  then obtain s1 where s1: "submitMonitoringResult 11 8 1 True 200 requested_state = Inr s1"
    "submitMonitoringResult 11 9 1 True 200 s1 = Inl (Revert ''Result already submitted'')"
    by blast
  from C4_duplicate_submission_always_fails [OF s1(1), of 11 False 0
      "[(12, 9, SubmitMonitoringResult 1 True 180), (13, 10, SubmitMonitoringResult 1 False 5000)]"]
  show ?thesis using s1 by blast
qed

subsection \<open>Settlement\<close>

lemma distribute_body_effect:
  assumes "distribute_body r c w n s = Inr s1"
  shows "monitoringNodes s1 = (monitoringNodes s)(n := settle_node c (monitoringResults s r n) (monitoringNodes s n))"
    and "n \<noteq> this s \<Longrightarrow> balanceOf (rewardToken s1) =
          (balanceOf (rewardToken s))
            (this s := balanceOf (rewardToken s) (this s)
               - (if isSubmitted (monitoringResults s r n) \<and> isUp (monitoringResults s r n) = c then w else 0),
             n := balanceOf (rewardToken s) n
               + (if isSubmitted (monitoringResults s r n) \<and> isUp (monitoringResults s r n) = c then w else 0))"
    and "isSubmitted (monitoringResults s r n) \<and> isUp (monitoringResults s r n) = c
           \<Longrightarrow> w \<le> balanceOf (rewardToken s) (this s)"
    and "events s1 = events s @ (if isSubmitted (monitoringResults s r n)
           then [settle_event c w (monitoringResults s r) n] else [])"
  using assms
  by (auto simp: distribute_body_Inr settle_node_def settle_event_def move_def Let_def fun_eq_iff
        split: if_splits)

lemma distribute_loop_effect:
  assumes "distribute_loop r c w ns s = Inr s'" and "distinct ns" and "this s \<notin> set ns"
  shows "monitoringNodes s' n =
           (if n \<in> set ns then settle_node c (monitoringResults s r n) (monitoringNodes s n)
            else monitoringNodes s n)"
    and "n \<noteq> this s \<Longrightarrow> balanceOf (rewardToken s') n = balanceOf (rewardToken s) n +
           (if n \<in> set ns \<and> isSubmitted (monitoringResults s r n) \<and> isUp (monitoringResults s r n) = c
            then w else 0)"
    and "events s' = events s @ map (settle_event c w (monitoringResults s r))
           (filter (\<lambda>n. isSubmitted (monitoringResults s r n)) ns)"
  using assms
proof (induction ns arbitrary: s)
  case Nil
  {
    case 1 then show ?case by simp
  next
    case 2 then show ?case by simp
  next
    case 3 then show ?case by simp
  }
next
  case (Cons m ns)
  {
    case 1
    from "1"(1) obtain s1 where b: "distribute_body r c w m s = Inr s1"
      and l: "distribute_loop r c w ns s1 = Inr s'"
      unfolding distribute_loop_Cons_Inr by blast
    note f = distribute_body_frame [OF b]
    have d: "distinct ns" "this s1 \<notin> set ns" "m \<notin> set ns" using "1" f by auto
    show ?case
      using Cons.IH(1) [OF l d(1,2)] distribute_body_effect(1) [OF b] f d(3) by auto
  next
    case 2
    from "2"(2) obtain s1 where b: "distribute_body r c w m s = Inr s1"
      and l: "distribute_loop r c w ns s1 = Inr s'"
      unfolding distribute_loop_Cons_Inr by blast
    note f = distribute_body_frame [OF b]
    have d: "distinct ns" "this s1 \<notin> set ns" "m \<notin> set ns" "m \<noteq> this s" "n \<noteq> this s1"
      using "2" f by auto
    show ?case
      using Cons.IH(2) [OF d(5) l d(1,2)] distribute_body_effect(2) [OF b d(4)] f d "2"(1)
      by auto
  next
    case 3
    from "3"(1) obtain s1 where b: "distribute_body r c w m s = Inr s1"
      and l: "distribute_loop r c w ns s1 = Inr s'"
      unfolding distribute_loop_Cons_Inr by blast
    note f = distribute_body_frame [OF b]
    have d: "distinct ns" "this s1 \<notin> set ns" using "3" f by auto
    show ?case
      using Cons.IH(3) [OF l d] distribute_body_effect(4) [OF b] f by auto
  }
qed

lemma swap_pop_found:
  assumes "distinct xs" and "i < length xs"
  shows "distinct (butlast (xs[i := xs ! (length xs - 1)])) \<and>
         set (butlast (xs[i := xs ! (length xs - 1)])) = set xs - {xs ! i}"
proof -
  from assms(2) have ne: "xs \<noteq> []" by auto
  define bs where "bs = butlast xs"
  define l where "l = last xs"
  have xs: "xs = bs @ [l]" using ne by (simp add: bs_def l_def)
  have l: "xs ! (length xs - 1) = l" using ne by (simp add: l_def last_conv_nth)
  have d: "distinct bs" "l \<notin> set bs" using assms(1) xs by auto
  show ?thesis
  proof (cases "i = length xs - 1")
    case True
    then have "xs[i := xs ! (length xs - 1)] = xs" by simp
    moreover have "xs ! i = l" using True l by simp
    moreover have "set bs = set xs - {l}" using d xs by auto
    ultimately show ?thesis using d by (simp add: bs_def)
  next
    case False
    then have i: "i < length bs" using assms(2) xs by simp
    have "butlast (xs[i := xs ! (length xs - 1)]) = bs[i := l]"
      using False l by (simp add: butlast_list_update bs_def)
    moreover have "distinct (bs[i := l])"
      using d by (simp add: distinct_list_update)
    moreover have "set (bs[i := l]) = insert l (set bs - {bs ! i})"
      using d i by (simp add: set_update_distinct)
    moreover have "xs ! i = bs ! i" using i xs by (simp add: nth_append)
    moreover have "bs ! i \<in> set bs" using i by simp
    ultimately show ?thesis using d xs by auto
  qed
qed

lemma swap_pop_distinct:
  "distinct xs \<Longrightarrow> x \<notin> set (take i xs) \<Longrightarrow>
   distinct (swap_pop x i xs) \<and> set (swap_pop x i xs) = set xs - {x}"
proof (induction x i xs rule: swap_pop.induct)
  case (1 x i xs)
  show ?case
  proof (cases "i < length xs")
    case False
    then have "swap_pop x i xs = xs" by (simp add: swap_pop.simps)
    moreover have "x \<notin> set xs" using False "1.prems"(2) by simp
    ultimately show ?thesis using "1.prems"(1) by simp
  next
    case True
    show ?thesis
    proof (cases "xs ! i = x")
      case found: True
      then have "swap_pop x i xs = butlast (xs[i := xs ! (length xs - 1)])"
        using True by (simp add: swap_pop.simps)
      then show ?thesis using swap_pop_found [OF "1.prems"(1) True] found by simp
    next
      case False
      then have eq: "swap_pop x i xs = swap_pop x (Suc i) xs"
        using True by (subst swap_pop.simps) simp
      have "x \<notin> set (take (Suc i) xs)"
        using "1.prems"(2) False True by (simp add: take_Suc_conv_app_nth)
      from "1.IH" [OF True False "1.prems"(1) this] eq show ?thesis by simp
    qed
  qed
qed


lemma settle_node_keeps:
  "isActive (settle_node c res nd) = isActive nd"
  "1 \<le> reputation nd \<Longrightarrow> 1 \<le> reputation (settle_node c res nd)"
  "stake (settle_node c res nd) = stake nd"
  by (auto simp: settle_node_def)

lemma distribute_loop_keeps:
  "distribute_loop r c w ns s = Inr s' \<Longrightarrow>
     isActive (monitoringNodes s' n) = isActive (monitoringNodes s n) \<and>
     (1 \<le> reputation (monitoringNodes s n) \<longrightarrow> 1 \<le> reputation (monitoringNodes s' n))"
proof (induction ns arbitrary: s)
  case Nil
  then show ?case by simp
next
  case (Cons m ns)
  from Cons.prems obtain s1 where b: "distribute_body r c w m s = Inr s1"
    and l: "distribute_loop r c w ns s1 = Inr s'"
    unfolding distribute_loop_Cons_Inr by blast
  show ?case
    using Cons.IH [OF l] distribute_body_effect(1) [OF b]
      settle_node_keeps(2) [of "monitoringNodes s m" c "monitoringResults s r m"]
    by (auto simp: settle_node_keeps(1))
qed

lemma submit_Inr:
  "submitMonitoringResult a now r up rt s = Inr s' \<longleftrightarrow>
     isActive (monitoringNodes s a) \<and> validRequest r s = None \<and>
     \<not> isSubmitted (monitoringResults s r a) \<and> isNodeAssignedToRequest r a s \<and>
     totalChecks (monitoringNodes s a) + 1 \<le> MAX_UINT256 \<and>
     checkConsensus now r (recorded a now r up rt s) = Inr s'"
  by (auto simp: submitMonitoringResult_def recorded_def checked_add_def split: option.splits)

lemma recorded_fields:
  "requestNodes (recorded a now r up rt s) = requestNodes s"
  "this (recorded a now r up rt s) = this s"
  "consensusThreshold (recorded a now r up rt s) = consensusThreshold s"
  "monitoringRequests (recorded a now r up rt s) = monitoringRequests s"
  "rewardToken (recorded a now r up rt s) = rewardToken s"
  "events (recorded a now r up rt s) = events s @ [MonitoringResultSubmitted r a up rt]"
  "monitoringResults (recorded a now r up rt s) =
     (monitoringResults s)(r := (monitoringResults s r)(a :=
        \<lparr>node = a, isUp = up, responseTime = rt, timestamp = now, isSubmitted = True\<rparr>))"
  "isActive (monitoringNodes (recorded a now r up rt s) n) = isActive (monitoringNodes s n)"
  "reputation (monitoringNodes (recorded a now r up rt s) n) = reputation (monitoringNodes s n)"
  "successfulChecks (monitoringNodes (recorded a now r up rt s) n) = successfulChecks (monitoringNodes s n)"
  by (simp_all add: recorded_def emit_def)

lemma checkConsensus_cases:
  assumes "checkConsensus now r s = Inr s'"
  shows "(length (submitted_results r s) \<noteq> length (requestNodes s r) \<and> s' = s) \<or>
         (length (submitted_results r s) = length (requestNodes s r) \<and>
          (\<exists>s1. distribute_loop r (spec_consensusIsUp (consensusThreshold s) (submitted_results r s))
                  (reward (monitoringRequests s r)) (requestNodes s r)
                  (emit (ConsensusReached r
                     (spec_consensusIsUp (consensusThreshold s) (submitted_results r s))
                     (spec_averageResponseTime (submitted_results r s))) s) = Inr s1 \<and>
                s' = s1\<lparr>monitoringRequests := (monitoringRequests s1)(r :=
                       (monitoringRequests s1 r)\<lparr>lastCheckedAt := now\<rparr>)\<rparr>))"
proof -
  from assms obtain sc uc tot where
    cl: "count_loop (monitoringResults s r) (requestNodes s r) (0, 0, 0) = Inr (sc, uc, tot)"
    by (cases "count_loop (monitoringResults s r) (requestNodes s r) (0, 0, 0)")
       (auto simp: checkConsensus_def Let_def)
  from count_loop_spec [OF cl]
  have sc: "sc = length (submitted_results r s)"
    and uc: "uc = length (filter isUp (submitted_results r s))"
    and tot: "tot = sum_list (map responseTime (submitted_results r s))"
    by (simp_all add: submitted_results_def)
  show ?thesis
  proof (cases "sc = length (requestNodes s r)")
    case False
    then show ?thesis using assms cl sc by (simp add: checkConsensus_def Let_def)
  next
    case True
    then show ?thesis using assms cl
      by (auto simp: checkConsensus_def distributeRewards_def Let_def checked_mul_def
            spec_consensusIsUp_def spec_averageResponseTime_def sc uc tot emit_def
            split: if_splits sum.splits)
  qed
qed

lemma submit_keeps:
  assumes "submitMonitoringResult a now r up rt s = Inr s'"
  shows "isActive (monitoringNodes s' n) = isActive (monitoringNodes s n)"
    and "1 \<le> reputation (monitoringNodes s n) \<Longrightarrow> 1 \<le> reputation (monitoringNodes s' n)"
proof -
  from assms have cc: "checkConsensus now r (recorded a now r up rt s) = Inr s'"
    by (simp add: submit_Inr)
  from checkConsensus_cases [OF cc]
  have "isActive (monitoringNodes s' n) = isActive (monitoringNodes s n) \<and>
     (1 \<le> reputation (monitoringNodes s n) \<longrightarrow> 1 \<le> reputation (monitoringNodes s' n))"
  proof
    assume "length (submitted_results r (recorded a now r up rt s))
        \<noteq> length (requestNodes (recorded a now r up rt s) r) \<and> s' = recorded a now r up rt s"
    then show ?thesis by (simp add: recorded_fields)
  next
    assume "length (submitted_results r (recorded a now r up rt s))
        = length (requestNodes (recorded a now r up rt s) r) \<and>
          (\<exists>s1. distribute_loop r
                  (spec_consensusIsUp (consensusThreshold (recorded a now r up rt s))
                     (submitted_results r (recorded a now r up rt s)))
                  (reward (monitoringRequests (recorded a now r up rt s) r))
                  (requestNodes (recorded a now r up rt s) r)
                  (emit (ConsensusReached r
                     (spec_consensusIsUp (consensusThreshold (recorded a now r up rt s))
                        (submitted_results r (recorded a now r up rt s)))
                     (spec_averageResponseTime (submitted_results r (recorded a now r up rt s))))
                     (recorded a now r up rt s)) = Inr s1 \<and>
                s' = s1\<lparr>monitoringRequests := (monitoringRequests s1)(r :=
                       (monitoringRequests s1 r)\<lparr>lastCheckedAt := now\<rparr>)\<rparr>)"
    then obtain s1 c ev where
      d: "distribute_loop r c (reward (monitoringRequests (recorded a now r up rt s) r))
            (requestNodes (recorded a now r up rt s) r) (emit ev (recorded a now r up rt s)) = Inr s1"
      and s': "s' = s1\<lparr>monitoringRequests := (monitoringRequests s1)(r :=
                       (monitoringRequests s1 r)\<lparr>lastCheckedAt := now\<rparr>)\<rparr>"
      by blast
    from distribute_loop_keeps [OF d, of n] s' show ?thesis
      by (simp add: emit_def recorded_fields)
  qed
  then show "isActive (monitoringNodes s' n) = isActive (monitoringNodes s n)"
    and "1 \<le> reputation (monitoringNodes s n) \<Longrightarrow> 1 \<le> reputation (monitoringNodes s' n)"
    by simp_all
qed

lemma exec_registry_ok:
  assumes ok: "registry_ok s" and cm: "committees_ok s" and a: "a \<noteq> this s"
    and ex: "exec a now c s = Inr s'"
  shows "registry_ok s'"
proof (cases c)
  case RegisterNode
  with ex have r: "registerNode a now s = Inr s'" by simp
  then have "\<not> isActive (monitoringNodes s a)" by (simp add: registerNode_Inr)
  then have "a \<notin> set (activeNodes s)" using ok by (auto simp: registry_ok_def)
  then show ?thesis using r ok a
    by (auto simp: registerNode_Inr registry_ok_def emit_def)
next
  case UnregisterNode
  with ex have u: "unregisterNode a now s = Inr s'" by simp
  have "distinct (swap_pop a 0 (activeNodes s)) \<and>
        set (swap_pop a 0 (activeNodes s)) = set (activeNodes s) - {a}"
    using ok by (intro swap_pop_distinct) (simp_all add: registry_ok_def)
  then show ?thesis using u ok
    by (auto simp: unregisterNode_Inr registry_ok_def emit_def)
next
  case (CreateMonitoringRequest u intv tmo rwd)
  with ex obtain rid where cr: "createMonitoringRequest a now u intv tmo rwd s = Inr (rid, s')"
    by (cases "createMonitoringRequest a now u intv tmo rwd s") auto
  note f = createMonitoringRequest_committee [OF cr]
  have e: "requestNodes s rid = []" using cm f(1) by (simp add: committees_ok_def)
  have new: "requestNodes s' rid = take (min 3 (length (activeNodes s))) (activeNodes s)"
    using f(5) e by simp
  have "distinct (requestNodes s' r) \<and> this s' \<notin> set (requestNodes s' r) \<and>
        (\<forall>n \<in> set (requestNodes s' r). 1 \<le> reputation (monitoringNodes s' n))" for r
  proof (cases "r = rid")
    case True
    then show ?thesis using new ok f(8,9) by (auto simp: registry_ok_def dest: in_set_takeD)
  next
    case False
    then show ?thesis using f(6) [of r] f(8,9) ok by (simp add: registry_ok_def)
  qed
  then show ?thesis using ok f(4,8,9) by (simp add: registry_ok_def)
next
  case (SubmitMonitoringResult r up rt)
  with ex have sb: "submitMonitoringResult a now r up rt s = Inr s'" by simp
  show ?thesis using submit_frame [OF sb] submit_keeps [OF sb] ok
    by (simp add: registry_ok_def)
next
  case (AddStake v)
  with ex registry_frame(1) [of a now v s s'] simple_op_frame(3) [of a now v s s'] ok
  show ?thesis by (simp add: registry_ok_def)
next
  case (DeactivateMonitoringRequest r)
  with ex registry_frame(2) [of a now r s s'] deactivate_frame [of a now r s s'] ok
  show ?thesis by (simp add: registry_ok_def)
next
  case (SetMinimumStake v)
  with ex registry_frame(3) [of a now v s s'] admin_frame(1) [of a now v s s'] ok
  show ?thesis by (simp add: registry_ok_def)
next
  case (SetConsensusThreshold v)
  with ex registry_frame(4) [of a now v s s'] admin_frame(2) [of a now v s s'] ok
  show ?thesis by (simp add: registry_ok_def)
next
  case Pause
  with ex registry_frame(5) [of a now s s'] admin_frame(3) [of a now s s'] ok
  show ?thesis by (simp add: registry_ok_def)
next
  case Unpause
  with ex registry_frame(6) [of a now s s'] admin_frame(4) [of a now s s'] ok
  show ?thesis by (simp add: registry_ok_def)
next
  case EmergencyWithdraw
  with ex registry_frame(7) [of a now s s'] admin_frame(5) [of a now s s'] ok
  show ?thesis by (simp add: registry_ok_def)
next
  case (TokenApprove sp v)
  with ex registry_frame(8) [of _ s s'] admin_frame(6) [of _ s s'] ok
  show ?thesis by (simp add: registry_ok_def)
next
  case (TokenTransfer dst v)
  with ex registry_frame(8) [of _ s s'] admin_frame(6) [of _ s s'] ok
  show ?thesis by (simp add: registry_ok_def)
qed

lemma reachable_registry_ok: "reachable s \<Longrightarrow> registry_ok s"
proof (induction rule: reachable.induct)
  case (deployed deployer self tok)
  show ?case by (simp add: registry_ok_def constructor_def)
next
  case (called s sender now c s')
  then show ?case using exec_registry_ok reachable_committees_ok by blast
qed

lemma all_submitted:
  "length (submitted_results r s) = length (requestNodes s r) \<Longrightarrow>
   n \<in> set (requestNodes s r) \<Longrightarrow> isSubmitted (monitoringResults s r n)"
proof -
  assume len: "length (submitted_results r s) = length (requestNodes s r)"
    and n: "n \<in> set (requestNodes s r)"
  have "isSubmitted x" if "x \<in> set (map (monitoringResults s r) (requestNodes s r))" for x
  proof (rule ccontr)
    assume "\<not> isSubmitted x"
    from length_filter_less [of x "map (monitoringResults s r) (requestNodes s r)" isSubmitted,
        OF that this] len show False
      by (simp add: submitted_results_def)
  qed
  then show ?thesis using n by simp
qed

lemma submit_settles:
  assumes sb: "submitMonitoringResult a now r up rt s = Inr s'"
    and len: "length (submitted_results r s') = length (requestNodes s' r)"
  shows "\<exists>s1 ev. distribute_loop r
            (spec_consensusIsUp (consensusThreshold s) (submitted_results r s'))
            (reward (monitoringRequests s r)) (requestNodes s r)
            (emit ev (recorded a now r up rt s)) = Inr s1 \<and>
          is_consensus ev \<and>
          s' = s1\<lparr>monitoringRequests := (monitoringRequests s1)(r :=
                 (monitoringRequests s1 r)\<lparr>lastCheckedAt := now\<rparr>)\<rparr>"
proof -
  let ?s1 = "recorded a now r up rt s"
  from sb have cc: "checkConsensus now r ?s1 = Inr s'" by (simp add: submit_Inr)
  have same: "submitted_results r s' = submitted_results r ?s1" "requestNodes s' r = requestNodes ?s1 r"
    using checkConsensus_frame [OF cc] by (simp_all add: submitted_results_def)
  let ?c1 = "spec_consensusIsUp (consensusThreshold ?s1) (submitted_results r ?s1)"
  let ?ev = "ConsensusReached r ?c1 (spec_averageResponseTime (submitted_results r ?s1))"
  from checkConsensus_cases [OF cc] len same
  obtain s1 where d: "distribute_loop r ?c1 (reward (monitoringRequests ?s1 r)) (requestNodes ?s1 r)
                  (emit ?ev ?s1) = Inr s1"
    and s': "s' = s1\<lparr>monitoringRequests := (monitoringRequests s1)(r :=
                       (monitoringRequests s1 r)\<lparr>lastCheckedAt := now\<rparr>)\<rparr>"
    by auto
  have "distribute_loop r (spec_consensusIsUp (consensusThreshold s) (submitted_results r s'))
            (reward (monitoringRequests s r)) (requestNodes s r) (emit ?ev ?s1) = Inr s1"
    using d by (simp add: same(1) recorded_fields)
  moreover have "is_consensus ?ev" by simp
  ultimately show ?thesis using s' by blast
qed

text \<open>
  Claim C2: at the settlement of a request's round, every committee member whose
  submitted \<open>isUp\<close> equals the consensus has \<open>successfulChecks\<close> incremented, its
  reputation incremented by 1 (exactly, with no cap applied) and receives a token
  transfer of the request's reward; every committee member whose \<open>isUp\<close> differs has
  its reputation decremented by 1 but never below 1, and receives no tokens; no
  member gets both the reward and the penalty in the same round. The settlement is the
  one inside the submission that completes the round, in any state the contract can
  reach.
\<close>

theorem C2_settlement_rewards_and_penalties:
  assumes "reachable s"
    and "submitMonitoringResult a now r up rt s = Inr s'"
    and "length (submitted_results r s') = length (requestNodes s' r)"
    and "n \<in> set (requestNodes s r)"
  shows "isSubmitted (monitoringResults s' r n) \<and>
    (isUp (monitoringResults s' r n)
        = spec_consensusIsUp (consensusThreshold s) (submitted_results r s') \<longrightarrow>
       successfulChecks (monitoringNodes s' n) = successfulChecks (monitoringNodes s n) + 1 \<and>
       reputation (monitoringNodes s' n) = reputation (monitoringNodes s n) + 1 \<and>
       balanceOf (rewardToken s') n
         = balanceOf (rewardToken s) n + reward (monitoringRequests s r) \<and>
       RewardDistributed n (reward (monitoringRequests s r)) \<in> set (new_events s s') \<and>
       (\<forall>v. PenaltyApplied n v \<notin> set (new_events s s'))) \<and>
    (isUp (monitoringResults s' r n)
        \<noteq> spec_consensusIsUp (consensusThreshold s) (submitted_results r s') \<longrightarrow>
       reputation (monitoringNodes s' n)
         = (if reputation (monitoringNodes s n) > 1 then reputation (monitoringNodes s n) - 1
            else 1) \<and>
       successfulChecks (monitoringNodes s' n) = successfulChecks (monitoringNodes s n) \<and>
       balanceOf (rewardToken s') n = balanceOf (rewardToken s) n \<and>
       PenaltyApplied n 0 \<in> set (new_events s s') \<and>
       (\<forall>v. RewardDistributed n v \<notin> set (new_events s s')))"
proof -
  let ?C = "requestNodes s r"
  let ?c = "spec_consensusIsUp (consensusThreshold s) (submitted_results r s')"
  let ?w = "reward (monitoringRequests s r)"
  let ?s1 = "recorded a now r up rt s"
  note ok = reachable_registry_ok [OF assms(1)]
  have dist: "distinct ?C" and self: "this s \<notin> set ?C" and rep: "1 \<le> reputation (monitoringNodes s n)"
    using ok assms(4) by (auto simp: registry_ok_def)
  from submit_settles [OF assms(2,3)] obtain s1 ev where
    d: "distribute_loop r ?c ?w ?C (emit ev ?s1) = Inr s1" and ev: "is_consensus ev"
    and s': "s' = s1\<lparr>monitoringRequests := (monitoringRequests s1)(r :=
                 (monitoringRequests s1 r)\<lparr>lastCheckedAt := now\<rparr>)\<rparr>"
    by blast
  have res: "monitoringResults s' = monitoringResults (emit ev ?s1)"
    using distribute_loop_frame [OF d] s' by simp
  have fr: "requestNodes s' = requestNodes s"
    using submit_frame [OF assms(2)] by simp
  have sub: "isSubmitted (monitoringResults s' r m)" if "m \<in> set ?C" for m
    using all_submitted [OF assms(3)] that fr by simp
  have self1: "this (emit ev ?s1) \<notin> set ?C" using self by (simp add: emit_def recorded_fields)
  note eff = distribute_loop_effect [OF d dist self1]
  have nself: "n \<noteq> this (emit ev ?s1)" using self assms(4) by (auto simp: emit_def recorded_fields)
  have nd: "monitoringNodes s' n
      = settle_node ?c (monitoringResults s' r n) (monitoringNodes (emit ev ?s1) n)"
    using eff(1) [of n] assms(4) s' res by simp
  have bal: "balanceOf (rewardToken s') n = balanceOf (rewardToken s) n +
      (if isUp (monitoringResults s' r n) = ?c then ?w else 0)"
    using eff(2) [OF nself] assms(4) s' res sub [OF assms(4)]
    by (simp add: emit_def recorded_fields)
  have evs: "new_events s s' = MonitoringResultSubmitted r a up rt # ev #
      map (settle_event ?c ?w (monitoringResults s' r)) ?C"
  proof -
    have "filter (\<lambda>m. isSubmitted (monitoringResults s' r m)) ?C = ?C"
      using sub by (simp add: filter_id_conv)
    then show ?thesis
      using eff(3) s' res by (simp add: new_events_def emit_def recorded_fields)
  qed
  have agree: "RewardDistributed n ?w \<in> set (new_events s s') \<and>
      (\<forall>v. PenaltyApplied n v \<notin> set (new_events s s'))"
    if "isUp (monitoringResults s' r n) = ?c"
    using that assms(4) ev
    unfolding evs by (cases ev) (auto simp: settle_event_def image_iff)
  have disagree: "PenaltyApplied n 0 \<in> set (new_events s s') \<and>
      (\<forall>v. RewardDistributed n v \<notin> set (new_events s s'))"
    if "isUp (monitoringResults s' r n) \<noteq> ?c"
    using that assms(4) ev
    unfolding evs by (cases ev) (auto simp: settle_event_def image_iff)
  show ?thesis
    using sub [OF assms(4)] nd bal agree disagree rep
    by (auto simp: settle_node_def emit_def recorded_fields)
qed

lemma two_submitted_state_evaluated:
  "reputation (monitoringNodes two_submitted_state 11) = 100"
  "reputation (monitoringNodes two_submitted_state 13) = 100"
  "successfulChecks (monitoringNodes two_submitted_state 11) = 0"
  "balanceOf (rewardToken two_submitted_state) 11 = 9000 * ether"
  "balanceOf (rewardToken two_submitted_state) 13 = 9000 * ether"
  "reward (monitoringRequests two_submitted_state 1) = ether"
  by (simp_all add: scenario_defs token_defs registerNode_def request_defs submit_defs)

lemma settled_state_results:
  "submitted_results 1 settled_state =
     map (monitoringResults settled_state 1) (requestNodes settled_state 1)"
  "requestNodes settled_state 1 = [11, 12, 13]"
  "isUp (monitoringResults settled_state 1 11)"
  "isUp (monitoringResults settled_state 1 12)"
  "\<not> isUp (monitoringResults settled_state 1 13)"
  by (simp_all add: submitted_results_def scenario_defs token_defs registerNode_def
        request_defs submit_defs)

theorem C2_settlement_rewards_and_penalties_witness:
  "reachable two_submitted_state \<and>
   submitMonitoringResult 13 10 1 False 5000 two_submitted_state = Inr settled_state \<and>
   length (submitted_results 1 settled_state) = length (requestNodes settled_state 1) \<and>
   requestNodes two_submitted_state 1 = [11, 12, 13] \<and>
   spec_consensusIsUp (consensusThreshold two_submitted_state) (submitted_results 1 settled_state) \<and>
   successfulChecks (monitoringNodes settled_state 11) = 1 \<and>
   reputation (monitoringNodes settled_state 11) = 101 \<and>
   balanceOf (rewardToken settled_state) 11 = 9001 * ether \<and>
   reputation (monitoringNodes settled_state 13) = 99 \<and>
   balanceOf (rewardToken settled_state) 13 = 9000 * ether \<and>
   PenaltyApplied 13 0 \<in> set (new_events two_submitted_state settled_state)"
proof -
  have len: "length (submitted_results 1 settled_state) = length (requestNodes settled_state 1)"
    using settled_state_results(1) by simp
  have c: "spec_consensusIsUp (consensusThreshold two_submitted_state)
      (submitted_results 1 settled_state)"
    using settled_state_results settled_state_evaluated(5) by (simp add: spec_consensusIsUp_def)
  have m: "11 \<in> set (requestNodes two_submitted_state 1)" "13 \<in> set (requestNodes two_submitted_state 1)"
    using settled_state_evaluated(4) by simp_all
  note a = C2_settlement_rewards_and_penalties
    [OF reachable_scenarios(4) settled_state_evaluated(1) len m(1)]
  note b = C2_settlement_rewards_and_penalties
    [OF reachable_scenarios(4) settled_state_evaluated(1) len m(2)]
  show ?thesis
    using a b c len reachable_scenarios(4) settled_state_evaluated(1,4)
      settled_state_results(3,5) two_submitted_state_evaluated
    by (simp add: ether_def)
qed

subsection \<open>Failing transfers\<close>

lemma distribute_loop_insufficient:
  "this s \<notin> set ns \<Longrightarrow>
   balanceOf (rewardToken s) (this s)
     < w * length (filter (\<lambda>n. isSubmitted (monitoringResults s r n) \<and>
                              isUp (monitoringResults s r n) = c) ns) \<Longrightarrow>
   \<exists>e. distribute_loop r c w ns s = Inl e"
proof (induction ns arbitrary: s)
  case Nil
  then show ?case by simp
next
  case (Cons m ns)
  show ?case
  proof (cases "distribute_body r c w m s")
    case (Inl e)
    then show ?thesis by simp
  next
    case (Inr s1)
    note f = distribute_body_frame [OF Inr]
    have m: "m \<noteq> this s" "this s1 \<notin> set ns" using Cons.prems(1) f by auto
    let ?agree = "isSubmitted (monitoringResults s r m) \<and> isUp (monitoringResults s r m) = c"
    have bal: "balanceOf (rewardToken s1) (this s1)
        = balanceOf (rewardToken s) (this s) - (if ?agree then w else 0)"
      using distribute_body_effect(2) [OF Inr m(1)] m(1) f by simp
    have "balanceOf (rewardToken s1) (this s1)
        < w * length (filter (\<lambda>n. isSubmitted (monitoringResults s1 r n) \<and>
                                 isUp (monitoringResults s1 r n) = c) ns)"
    proof (cases ?agree)
      case True
      with distribute_body_effect(3) [OF Inr] have "w \<le> balanceOf (rewardToken s) (this s)"
        by simp
      then show ?thesis using Cons.prems(2) True bal f by simp
    next
      case False
      then show ?thesis using Cons.prems(2) bal f by auto
    qed
    from Cons.IH [OF m(2) this] Inr show ?thesis by simp
  qed
qed

lemma submit_insufficient:
  assumes "reachable s"
    and "length (submitted_results r (recorded a now r up rt s)) = length (requestNodes s r)"
    and "balanceOf (rewardToken s) (this s) < reward (monitoringRequests s r) *
           length (filter (\<lambda>x. isUp x = spec_consensusIsUp (consensusThreshold s)
                                   (submitted_results r (recorded a now r up rt s)))
                     (submitted_results r (recorded a now r up rt s)))"
  shows "\<exists>e. submitMonitoringResult a now r up rt s = Inl e"
proof (cases "submitMonitoringResult a now r up rt s")
  case (Inl e)
  then show ?thesis by blast
next
  case (Inr s')
  let ?s1 = "recorded a now r up rt s"
  let ?c = "spec_consensusIsUp (consensusThreshold s) (submitted_results r ?s1)"
  from Inr have cc: "checkConsensus now r ?s1 = Inr s'" by (simp add: submit_Inr)
  have same: "submitted_results r s' = submitted_results r ?s1" "requestNodes s' r = requestNodes s r"
    using checkConsensus_frame [OF cc] by (simp_all add: submitted_results_def recorded_fields)
  from submit_settles [OF Inr] assms(2) same obtain s1 ev where
    d: "distribute_loop r ?c (reward (monitoringRequests s r)) (requestNodes s r) (emit ev ?s1) = Inr s1"
    by auto
  have self: "this (emit ev ?s1) \<notin> set (requestNodes s r)"
    using reachable_registry_ok [OF assms(1)] by (simp add: registry_ok_def emit_def recorded_fields)
  have cnt: "length (filter (\<lambda>x. isUp x = ?c) (submitted_results r ?s1)) =
      length (filter (\<lambda>n. isSubmitted (monitoringResults (emit ev ?s1) r n) \<and>
                             isUp (monitoringResults (emit ev ?s1) r n) = ?c) (requestNodes s r))"
    by (simp add: submitted_results_def emit_def recorded_fields(1) filter_map comp_def conj_commute)
  have "balanceOf (rewardToken (emit ev ?s1)) (this (emit ev ?s1)) = balanceOf (rewardToken s) (this s)"
    by (simp add: emit_def recorded_fields)
  with assms(3) cnt have "balanceOf (rewardToken (emit ev ?s1)) (this (emit ev ?s1))
      < reward (monitoringRequests s r) *
        length (filter (\<lambda>n. isSubmitted (monitoringResults (emit ev ?s1) r n) \<and>
                             isUp (monitoringResults (emit ev ?s1) r n) = ?c) (requestNodes s r))"
    by simp
  from distribute_loop_insufficient [OF self this] d show ?thesis by simp
qed

text \<open>
  Claim C3: every mutating operation is atomic with respect to its token transfers. If
  the stake transfer of \<open>registerNode\<close> or \<open>addStake\<close> fails (the allowance or the
  balance of the caller does not cover the amount), if the stake return of
  \<open>unregisterNode\<close> fails (the contract does not hold the stake), or if a reward
  payout of the settlement fails (the submission completes the round and the contract
  does not hold the reward for every member that agrees with the consensus), then the
  call reverts and the transaction leaves the whole state as it was: neither of
  contract nor of token state anything persists, not even the payouts made and the
  result recorded before the failing transfer. The reward token reports a failing
  transfer by reverting, and the revert of the token call is the revert of the calling
  function; the flag that \<open>_distributeRewards\<close> tests before it emits
  \<open>RewardDistributed\<close> is \<open>true\<close> whenever the token returns at all.
\<close>

theorem C3_failed_transfer_aborts_call:
  "(\<not> paused s \<and> \<not> isActive (monitoringNodes s a) \<and>
    (allowance (rewardToken s) a (this s) < minimumStake s \<or>
     balanceOf (rewardToken s) a < minimumStake s) \<longrightarrow>
      (registerNode a now s = Inl ERC20InsufficientAllowance \<or>
       registerNode a now s = Inl ERC20InsufficientBalance) \<and>
      transact a now RegisterNode s = s) \<and>
   (isActive (monitoringNodes s a) \<and> 0 < amount \<and>
    (allowance (rewardToken s) a (this s) < amount \<or> balanceOf (rewardToken s) a < amount) \<longrightarrow>
      (addStake a now amount s = Inl ERC20InsufficientAllowance \<or>
       addStake a now amount s = Inl ERC20InsufficientBalance) \<and>
      transact a now (AddStake amount) s = s) \<and>
   (isActive (monitoringNodes s a) \<and>
    balanceOf (rewardToken s) (this s) < stake (monitoringNodes s a) \<longrightarrow>
      unregisterNode a now s = Inl ERC20InsufficientBalance \<and>
      transact a now UnregisterNode s = s) \<and>
   (reachable s \<and>
    length (submitted_results r (recorded a now r up rt s)) = length (requestNodes s r) \<and>
    balanceOf (rewardToken s) (this s) < reward (monitoringRequests s r) *
      length (filter (\<lambda>x. isUp x = spec_consensusIsUp (consensusThreshold s)
                              (submitted_results r (recorded a now r up rt s)))
                (submitted_results r (recorded a now r up rt s))) \<longrightarrow>
      (\<exists>e. submitMonitoringResult a now r up rt s = Inl e) \<and>
      transact a now (SubmitMonitoringResult r up rt) s = s)"
proof (intro conjI impI)
  assume h: "\<not> paused s \<and> \<not> isActive (monitoringNodes s a) \<and>
    (allowance (rewardToken s) a (this s) < minimumStake s \<or>
     balanceOf (rewardToken s) a < minimumStake s)"
  then show r: "registerNode a now s = Inl ERC20InsufficientAllowance \<or>
       registerNode a now s = Inl ERC20InsufficientBalance"
    by (auto simp: registerNode_def ERC20_transferFrom_def)
  then show "transact a now RegisterNode s = s" by (auto simp: transact_def)
next
  assume h: "isActive (monitoringNodes s a) \<and> 0 < amount \<and>
    (allowance (rewardToken s) a (this s) < amount \<or> balanceOf (rewardToken s) a < amount)"
  then show r: "addStake a now amount s = Inl ERC20InsufficientAllowance \<or>
       addStake a now amount s = Inl ERC20InsufficientBalance"
    by (auto simp: addStake_def ERC20_transferFrom_def)
  then show "transact a now (AddStake amount) s = s" by (auto simp: transact_def)
next
  assume h: "isActive (monitoringNodes s a) \<and>
    balanceOf (rewardToken s) (this s) < stake (monitoringNodes s a)"
  then show r: "unregisterNode a now s = Inl ERC20InsufficientBalance"
    by (auto simp: unregisterNode_def ERC20_transfer_def Let_def)
  then show "transact a now UnregisterNode s = s" by (auto simp: transact_def)
next
  assume h: "reachable s \<and>
    length (submitted_results r (recorded a now r up rt s)) = length (requestNodes s r) \<and>
    balanceOf (rewardToken s) (this s) < reward (monitoringRequests s r) *
      length (filter (\<lambda>x. isUp x = spec_consensusIsUp (consensusThreshold s)
                              (submitted_results r (recorded a now r up rt s)))
                (submitted_results r (recorded a now r up rt s)))"
  then show r: "\<exists>e. submitMonitoringResult a now r up rt s = Inl e"
    using submit_insufficient by blast
  then show "transact a now (SubmitMonitoringResult r up rt) s = s" by (auto simp: transact_def)
qed

lemma drained_state_evaluated:
  "balanceOf (rewardToken drained_state) (this drained_state) = 0"
  "reward (monitoringRequests drained_state 1) = ether"
  "requestNodes drained_state 1 = [11, 12, 13]"
  "consensusThreshold drained_state = 66"
  "map (\<lambda>x. (isSubmitted x, isUp x)) (map (monitoringResults (recorded 13 11 1 False 5000 drained_state) 1)
     (requestNodes (recorded 13 11 1 False 5000 drained_state) 1))
     = [(True, True), (True, True), (True, False)]"
  by (simp_all add: scenario_defs token_defs registerNode_def request_defs submit_defs
        emergencyWithdraw_def recorded_def)

lemma deployed_state_evaluated:
  "\<not> paused deployed_state" "\<not> isActive (monitoringNodes deployed_state 11)"
  "allowance (rewardToken deployed_state) 11 (this deployed_state) = 0"
  "minimumStake deployed_state = 1000 * ether"
  by (simp_all add: scenario_defs)

lemma stake_scenarios_evaluated:
  "isActive (monitoringNodes registered_state 11)"
  "allowance (rewardToken registered_state) 11 (this registered_state) = 0"
  "isActive (monitoringNodes drained_state 11)"
  "stake (monitoringNodes drained_state 11) = 1000 * ether"
  by (simp_all add: scenario_defs token_defs registerNode_def request_defs submit_defs
        emergencyWithdraw_def)

theorem C3_failed_transfer_aborts_call_witness:
  "allowance (rewardToken deployed_state) 11 (this deployed_state) < minimumStake deployed_state \<and>
   registerNode 11 2 deployed_state = Inl ERC20InsufficientAllowance \<and>
   transact 11 2 RegisterNode deployed_state = deployed_state \<and>
   allowance (rewardToken registered_state) 11 (this registered_state) < 5 \<and>
   addStake 11 7 5 registered_state = Inl ERC20InsufficientAllowance \<and>
   transact 11 7 (AddStake 5) registered_state = registered_state \<and>
   balanceOf (rewardToken drained_state) (this drained_state) = 0 \<and>
   stake (monitoringNodes drained_state 11) = 1000 * ether \<and>
   unregisterNode 11 11 drained_state = Inl ERC20InsufficientBalance \<and>
   transact 11 11 UnregisterNode drained_state = drained_state \<and>
   reachable drained_state \<and>
   length (submitted_results 1 (recorded 13 11 1 False 5000 drained_state)) = 3 \<and>
   (\<exists>e. submitMonitoringResult 13 11 1 False 5000 drained_state = Inl e) \<and>
   transact 13 11 (SubmitMonitoringResult 1 False 5000) drained_state = drained_state"
proof -
  let ?rs = "submitted_results 1 (recorded 13 11 1 False 5000 drained_state)"
  have pre1: "allowance (rewardToken deployed_state) 11 (this deployed_state)
      < minimumStake deployed_state"
    by (simp add: deployed_state_evaluated ether_def)
  have pre2: "allowance (rewardToken registered_state) 11 (this registered_state) < 5"
    by (simp add: stake_scenarios_evaluated)
  have pre3: "balanceOf (rewardToken drained_state) (this drained_state)
      < stake (monitoringNodes drained_state 11)"
    by (simp add: stake_scenarios_evaluated drained_state_evaluated ether_def)
  have rs: "map (\<lambda>x. (isSubmitted x, isUp x))
      (map (monitoringResults (recorded 13 11 1 False 5000 drained_state) 1) [11, 12, 13])
      = [(True, True), (True, True), (True, False)]"
    using drained_state_evaluated(5,3) by (simp add: recorded_fields)
  have sub: "?rs = map (monitoringResults (recorded 13 11 1 False 5000 drained_state) 1) [11, 12, 13]"
    using rs drained_state_evaluated(3) by (simp add: submitted_results_def recorded_fields)
  have len: "length ?rs = 3" using sub by simp
  have up: "length (filter isUp ?rs) = 2" using rs sub by simp
  have c: "spec_consensusIsUp (consensusThreshold drained_state) ?rs"
    using len up drained_state_evaluated(4) by (simp add: spec_consensusIsUp_def)
  have cnt: "length (filter (\<lambda>x. isUp x = spec_consensusIsUp (consensusThreshold drained_state) ?rs) ?rs) = 2"
    using c up by simp
  have pre4: "reachable drained_state \<and>
    length ?rs = length (requestNodes drained_state 1) \<and>
    balanceOf (rewardToken drained_state) (this drained_state)
      < reward (monitoringRequests drained_state 1) *
        length (filter (\<lambda>x. isUp x = spec_consensusIsUp (consensusThreshold drained_state) ?rs) ?rs)"
    using len cnt drained_state_evaluated(1,2,3) reachable_scenarios(6) by (simp add: ether_def)
  note t1 = C3_failed_transfer_aborts_call [where s = deployed_state and a = 11 and now = 2]
  note t2 = C3_failed_transfer_aborts_call [where s = registered_state and a = 11 and now = 7
      and amount = 5]
  note t3 = C3_failed_transfer_aborts_call [where s = drained_state and a = 11 and now = 11]
  note t4 = C3_failed_transfer_aborts_call [where s = drained_state and a = 13 and now = 11
      and r = 1 and up = False and rt = 5000]
  have a: "registerNode 11 2 deployed_state = Inl ERC20InsufficientAllowance \<and>
      transact 11 2 RegisterNode deployed_state = deployed_state"
    using t1 pre1 deployed_state_evaluated(1,2)
    by (auto simp: registerNode_def ERC20_transferFrom_def)
  have b: "addStake 11 7 5 registered_state = Inl ERC20InsufficientAllowance \<and>
      transact 11 7 (AddStake 5) registered_state = registered_state"
    using t2 pre2 stake_scenarios_evaluated(1)
    by (auto simp: addStake_def ERC20_transferFrom_def)
  have c: "unregisterNode 11 11 drained_state = Inl ERC20InsufficientBalance \<and>
      transact 11 11 UnregisterNode drained_state = drained_state"
    using t3 pre3 stake_scenarios_evaluated(3) by blast
  have d: "(\<exists>e. submitMonitoringResult 13 11 1 False 5000 drained_state = Inl e) \<and>
      transact 13 11 (SubmitMonitoringResult 1 False 5000) drained_state = drained_state"
    using t4 pre4 by blast
  show ?thesis
    using pre1 pre2 a b c d len reachable_scenarios(6) drained_state_evaluated(1)
      stake_scenarios_evaluated(4)
    by simp
qed

subsection \<open>Order of submissions\<close>

lemma run_submissions_Cons_Inr:
  "run_submissions r ((a, now, up, rt) # subs) s = Inr s' \<longleftrightarrow>
     (\<exists>s1. submitMonitoringResult a now r up rt s = Inr s1 \<and> run_submissions r subs s1 = Inr s')"
  by (cases "submitMonitoringResult a now r up rt s") simp_all

lemma submitted_plus_pending:
  "length (submitted_results r s) + length (pending r s) = length (requestNodes s r)"
  unfolding submitted_results_def pending_def
  using sum_length_filter_compl [of "\<lambda>n. isSubmitted (monitoringResults s r n)" "requestNodes s r"]
  by (simp add: filter_map comp_def)

lemma submit_pending:
  assumes "submitMonitoringResult a now r up rt s = Inr s1"
  shows "pending r s1 = filter (\<lambda>n. n \<noteq> a) (pending r s)"
proof -
  note f = submit_frame [OF assms]
  have "(\<not> isSubmitted (monitoringResults s1 r n)) = (n \<noteq> a \<and> \<not> isSubmitted (monitoringResults s r n))"
    for n using f by simp
  then show ?thesis using f by (simp add: pending_def conj_commute)
qed

lemma mset_remove_distinct:
  "distinct xs \<Longrightarrow> a \<in> set xs \<Longrightarrow> mset (filter (\<lambda>n. n \<noteq> a) xs) = mset xs - {#a#}"
proof (induction xs)
  case Nil
  then show ?case by simp
next
  case (Cons x xs)
  have keep: "filter (\<lambda>n. n \<noteq> a) ys = ys" if "a \<notin> set ys" for ys :: "'a list"
    using that by (induction ys) auto
  show ?case
  proof (cases "x = a")
    case True
    then have "a \<notin> set xs" using Cons.prems(1) by simp
    from keep [OF this] True show ?thesis by (simp del: mset_filter)
  next
    case False
    then have "a \<in> set xs" using Cons.prems(2) by simp
    with Cons.IH Cons.prems(1) False show ?thesis by (simp del: mset_filter)
  qed
qed

lemma run_submissions_events:
  "run_submissions r subs s = Inr s' \<Longrightarrow> \<exists>evs. events s' = events s @ evs"
proof (induction subs arbitrary: s)
  case Nil
  then show ?case by simp
next
  case (Cons x subs)
  obtain a now up rt where x: "x = (a, now, up, rt)" by (cases x) auto
  from Cons.prems obtain s1 where 1: "submitMonitoringResult a now r up rt s = Inr s1"
    and 2: "run_submissions r subs s1 = Inr s'"
    unfolding x run_submissions_Cons_Inr by blast
  from submit_events [OF 1] Cons.IH [OF 2] show ?case by auto
qed

lemma run_submissions_frame:
  "run_submissions r subs s = Inr s' \<Longrightarrow>
     requestNodes s' = requestNodes s \<and> consensusThreshold s' = consensusThreshold s"
proof (induction subs arbitrary: s)
  case Nil
  then show ?case by simp
next
  case (Cons x subs)
  obtain a now up rt where x: "x = (a, now, up, rt)" by (cases x) auto
  from Cons.prems obtain s1 where 1: "submitMonitoringResult a now r up rt s = Inr s1"
    and 2: "run_submissions r subs s1 = Inr s'"
    unfolding x run_submissions_Cons_Inr by blast
  from submit_frame [OF 1] Cons.IH [OF 2] show ?case by simp
qed

lemma run_submissions_others:
  "run_submissions r subs s = Inr s' \<Longrightarrow> n \<notin> fst ` set subs \<Longrightarrow>
     monitoringResults s' r n = monitoringResults s r n"
proof (induction subs arbitrary: s)
  case Nil
  then show ?case by simp
next
  case (Cons x subs)
  obtain b t u v where x: "x = (b, t, u, v)" by (cases x) auto
  from Cons.prems(1) obtain s1 where s1: "submitMonitoringResult b t r u v s = Inr s1"
    and rest: "run_submissions r subs s1 = Inr s'"
    unfolding x run_submissions_Cons_Inr by blast
  have "n \<noteq> b" "n \<notin> fst ` set subs" using Cons.prems(2) x by auto
  from Cons.IH [OF rest this(2)] submit_frame [OF s1] this(1) show ?case by simp
qed

lemma run_submissions_results:
  "run_submissions r subs s = Inr s' \<Longrightarrow> distinct (map fst subs) \<Longrightarrow>
   (a, now, up, rt) \<in> set subs \<Longrightarrow>
     isSubmitted (monitoringResults s' r a) \<and> isUp (monitoringResults s' r a) = up \<and>
     responseTime (monitoringResults s' r a) = rt"
proof (induction subs arbitrary: s)
  case Nil
  then show ?case by simp
next
  case (Cons x subs)
  obtain b t u v where x: "x = (b, t, u, v)" by (cases x) auto
  from Cons.prems(1) obtain s1 where s1: "submitMonitoringResult b t r u v s = Inr s1"
    and rest: "run_submissions r subs s1 = Inr s'"
    unfolding x run_submissions_Cons_Inr by blast
  show ?case
  proof (cases "(a, now, up, rt) \<in> set subs")
    case True
    then show ?thesis using Cons.IH [OF rest] Cons.prems(2) by simp
  next
    case False
    then have eq: "(a, now, up, rt) = (b, t, u, v)" using Cons.prems(3) x by simp
    then have "a \<notin> fst ` set subs" using Cons.prems(2) x by auto
    from run_submissions_others [OF rest this] submit_frame [OF s1] eq show ?thesis by simp
  qed
qed

lemma run_submissions_consensus:
  assumes "distinct (requestNodes s r)"
    and "mset (map fst subs) \<subseteq># mset (pending r s)"
    and "run_submissions r subs s = Inr s'"
  shows "filter is_consensus (new_events s s') =
     (if subs \<noteq> [] \<and> mset (map fst subs) = mset (pending r s)
      then [ConsensusReached r (spec_consensusIsUp (consensusThreshold s) (submitted_results r s'))
              (spec_averageResponseTime (submitted_results r s'))]
      else [])"
  using assms
proof (induction subs arbitrary: s)
  case Nil
  then show ?case by (simp add: new_events_def)
next
  case (Cons x subs)
  obtain a now up rt where x: "x = (a, now, up, rt)" by (cases x) auto
  from Cons.prems(3) obtain s1 where s1: "submitMonitoringResult a now r up rt s = Inr s1"
    and rest: "run_submissions r subs s1 = Inr s'"
    unfolding x run_submissions_Cons_Inr by blast
  note f = submit_frame [OF s1]
  have dp: "distinct (pending r s)" using Cons.prems(1) by (simp add: pending_def)
  have a: "a \<in> set (pending r s)"
    using Cons.prems(2) x by (auto dest: mset_subset_eq_insertD)
  have p1: "mset (pending r s1) = mset (pending r s) - {#a#}"
    using submit_pending [OF s1] mset_remove_distinct [OF dp a] by simp
  have sub1: "mset (map fst subs) \<subseteq># mset (pending r s1)"
    using Cons.prems(2) x p1 by (simp add: insert_subset_eq_iff)
  have d1: "distinct (requestNodes s1 r)" using Cons.prems(1) f by simp
  note IH = Cons.IH [OF d1 sub1 rest]
  from submit_events [OF s1] obtain e1 where e1: "events s1 = events s @ e1"
    and c1: "filter is_consensus e1 =
       (if length (submitted_results r s1) = length (requestNodes s1 r)
        then [ConsensusReached r (spec_consensusIsUp (consensusThreshold s) (submitted_results r s1))
                (spec_averageResponseTime (submitted_results r s1))]
        else [])"
    by blast
  from run_submissions_events [OF rest] obtain e2 where e2: "events s' = events s1 @ e2"
    by blast
  have split: "filter is_consensus (new_events s s')
      = filter is_consensus e1 @ filter is_consensus (new_events s1 s')"
    using e1 e2 by (simp add: new_events_def)
  have full: "(length (submitted_results r s1) = length (requestNodes s1 r)) = (pending r s1 = [])"
    using submitted_plus_pending [of r s1] by auto
  have thr: "consensusThreshold s1 = consensusThreshold s" using f by simp
  show ?case
  proof (cases "pending r s1 = []")
    case True
    then have "subs = []" using sub1 by simp
    moreover have "mset (pending r s) = {#a#}"
      using True p1 a by (metis diff_single_trivial insert_DiffM mset.simps(1) mset_zero_iff set_mset_mset)
    ultimately show ?thesis
      using split c1 full True rest x by (simp add: new_events_def)
  next
    case False
    have cond: "(mset (map fst (x # subs)) = mset (pending r s))
        = (subs \<noteq> [] \<and> mset (map fst subs) = mset (pending r s1))"
    proof
      assume "mset (map fst (x # subs)) = mset (pending r s)"
      then have "mset (map fst subs) = mset (pending r s1)" using p1 x
        by (metis add_mset_remove_trivial fst_conv list.simps(9) mset.simps(2))
      moreover have "subs \<noteq> []" using calculation False by auto
      ultimately show "subs \<noteq> [] \<and> mset (map fst subs) = mset (pending r s1)" by simp
    next
      assume "subs \<noteq> [] \<and> mset (map fst subs) = mset (pending r s1)"
      then show "mset (map fst (x # subs)) = mset (pending r s)"
        using p1 a x by simp
    qed
    show ?thesis
      using split c1 full False IH cond thr by simp
  qed
qed

lemma run_submissions_count:
  assumes "distinct (requestNodes s r)"
    and "mset (map fst subs) \<subseteq># mset (pending r s)"
    and "run_submissions r subs s = Inr s'"
  shows "length (pending r s') + length subs = length (pending r s)"
  using assms
proof (induction subs arbitrary: s)
  case Nil
  then show ?case by simp
next
  case (Cons x subs)
  obtain a now up rt where x: "x = (a, now, up, rt)" by (cases x) auto
  from Cons.prems(3) obtain s1 where s1: "submitMonitoringResult a now r up rt s = Inr s1"
    and rest: "run_submissions r subs s1 = Inr s'"
    unfolding x run_submissions_Cons_Inr by blast
  note f = submit_frame [OF s1]
  have dp: "distinct (pending r s)" using Cons.prems(1) by (simp add: pending_def)
  have a: "a \<in> set (pending r s)"
    using Cons.prems(2) x by (auto dest: mset_subset_eq_insertD)
  have p1: "mset (pending r s1) = mset (pending r s) - {#a#}"
    using submit_pending [OF s1] mset_remove_distinct [OF dp a] by simp
  have sub1: "mset (map fst subs) \<subseteq># mset (pending r s1)"
    using Cons.prems(2) x p1 by (simp add: insert_subset_eq_iff)
  have d1: "distinct (requestNodes s1 r)" using Cons.prems(1) f by simp
  have "size (mset (pending r s1)) = size (mset (pending r s)) - 1"
    using p1 a by (simp add: size_Diff_singleton)
  moreover have "0 < length (pending r s)" using a by (cases "pending r s") auto
  ultimately have "Suc (length (pending r s1)) = length (pending r s)" by simp
  with Cons.IH [OF d1 sub1 rest] show ?case by simp
qed

lemma spec_as_votes:
  "spec_consensusIsUp thr rs
     = votes_consensusIsUp thr (mset (map (\<lambda>x. (isUp x, responseTime x)) rs))"
  "spec_averageResponseTime rs
     = votes_averageResponseTime (mset (map (\<lambda>x. (isUp x, responseTime x)) rs))"
proof -
  have 1: "size (filter_mset fst (mset (map (\<lambda>x. (isUp x, responseTime x)) rs)))
      = length (filter isUp rs)"
    by (induction rs) auto
  have 2: "sum_mset (image_mset snd (mset (map (\<lambda>x. (isUp x, responseTime x)) rs)))
      = sum_list (map responseTime rs)"
    by (induction rs) auto
  show "spec_consensusIsUp thr rs
     = votes_consensusIsUp thr (mset (map (\<lambda>x. (isUp x, responseTime x)) rs))"
    unfolding spec_consensusIsUp_def votes_consensusIsUp_def 1 by simp
  show "spec_averageResponseTime rs
     = votes_averageResponseTime (mset (map (\<lambda>x. (isUp x, responseTime x)) rs))"
    unfolding spec_averageResponseTime_def votes_averageResponseTime_def 2 by simp
qed

lemma run_submissions_votes:
  assumes dist: "distinct (requestNodes s r)"
    and all: "mset (map fst subs) = mset (requestNodes s r)"
    and run: "run_submissions r subs s = Inr s'"
  shows "submitted_results r s' = map (monitoringResults s' r) (requestNodes s r)"
    and "mset (map (\<lambda>x. (isUp x, responseTime x)) (submitted_results r s')) = mset (map vote subs)"
proof -
  let ?g = "\<lambda>n. (isUp (monitoringResults s' r n), responseTime (monitoringResults s' r n))"
  have d: "distinct (map fst subs)"
    using dist all by (metis mset_eq_imp_distinct_iff)
  have rn: "requestNodes s' = requestNodes s" using run_submissions_frame [OF run] by simp
  have each: "isSubmitted (monitoringResults s' r (fst x)) \<and> ?g (fst x) = vote x"
    if "x \<in> set subs" for x
  proof -
    obtain a now up rt where x: "x = (a, now, up, rt)" by (cases x) auto
    from run_submissions_results [OF run d that [unfolded x]] show ?thesis
      by (simp add: x vote_def)
  qed
  have "set (requestNodes s r) = fst ` set subs"
    using all by (metis set_map set_mset_mset)
  then have "\<forall>n \<in> set (requestNodes s r). isSubmitted (monitoringResults s' r n)"
    using each by auto
  then show sr: "submitted_results r s' = map (monitoringResults s' r) (requestNodes s r)"
    by (simp add: submitted_results_def rn filter_id_conv)
  have "mset (map ?g (requestNodes s r)) = mset (map ?g (map fst subs))"
    using all by (metis mset_map)
  also have "map ?g (map fst subs) = map vote subs"
    using each by simp
  finally show "mset (map (\<lambda>x. (isUp x, responseTime x)) (submitted_results r s')) = mset (map vote subs)"
    by (simp add: sr comp_def)
qed

lemma round_consensus:
  assumes dist: "distinct (requestNodes s r)"
    and fresh: "\<forall>n \<in> set (requestNodes s r). \<not> isSubmitted (monitoringResults s r n)"
    and ne: "subs \<noteq> []"
    and all: "mset (map fst subs) = mset (requestNodes s r)"
    and run: "run_submissions r subs s = Inr s'"
  shows "filter is_consensus (new_events s s') =
     [ConsensusReached r (votes_consensusIsUp (consensusThreshold s) (mset (map vote subs)))
        (votes_averageResponseTime (mset (map vote subs)))]"
proof -
  have p: "pending r s = requestNodes s r" using fresh by (simp add: pending_def filter_id_conv)
  have "filter is_consensus (new_events s s') =
     [ConsensusReached r (spec_consensusIsUp (consensusThreshold s) (submitted_results r s'))
        (spec_averageResponseTime (submitted_results r s'))]"
    using run_submissions_consensus [OF dist _ run] all ne p by simp
  then show ?thesis
    using run_submissions_votes(2) [OF dist all run] by (simp add: spec_as_votes)
qed

text \<open>
  Claim C5: the consensus outcome and the average response time of a request are a
  function of the multiset of submitted \<open>(isUp, responseTime)\<close> values and of the
  consensus threshold alone. When the committee members of a request with no result
  yet submit once each, in any order, the run emits exactly one \<open>ConsensusReached\<close>
  event, whose values are the consensus rule applied to the multiset of votes; a
  second run in which the members submit the same multiset of votes in another order
  emits the same event; and consensus is reached only when the number of submitted
  results equals the committee size: after any proper prefix of the run (\<open>k\<close> results
  submitted, fewer than the committee size) no \<open>ConsensusReached\<close> event has been
  emitted.
\<close>

theorem C5_consensus_independent_of_submission_order:
  assumes "reachable s"
    and "\<forall>n \<in> set (requestNodes s r). \<not> isSubmitted (monitoringResults s r n)"
    and "subs \<noteq> []"
    and "mset (map fst subs) = mset (requestNodes s r)"
    and "run_submissions r subs s = Inr s'"
  shows "filter is_consensus (new_events s s') =
      [ConsensusReached r (votes_consensusIsUp (consensusThreshold s) (mset (map vote subs)))
         (votes_averageResponseTime (mset (map vote subs)))] \<and>
    length (submitted_results r s') = length (requestNodes s r) \<and>
    (mset (map fst subs2) = mset (requestNodes s r) \<and>
     mset (map vote subs2) = mset (map vote subs) \<and>
     run_submissions r subs2 s = Inr s2 \<longrightarrow>
       filter is_consensus (new_events s s2) = filter is_consensus (new_events s s')) \<and>
    (k < length subs \<and> run_submissions r (take k subs) s = Inr sk \<longrightarrow>
       length (submitted_results r sk) = k \<and> k < length (requestNodes s r) \<and>
       filter is_consensus (new_events s sk) = [])"
proof (intro conjI impI)
  have dist: "distinct (requestNodes s r)"
    using reachable_registry_ok [OF assms(1)] by (simp add: registry_ok_def)
  have p: "pending r s = requestNodes s r" using assms(2) by (simp add: pending_def filter_id_conv)
  have len: "length subs = length (requestNodes s r)"
    using assms(4) by (metis length_map size_mset)
  show 1: "filter is_consensus (new_events s s') =
      [ConsensusReached r (votes_consensusIsUp (consensusThreshold s) (mset (map vote subs)))
         (votes_averageResponseTime (mset (map vote subs)))]"
    by (rule round_consensus [OF dist assms(2,3,4,5)])
  show "length (submitted_results r s') = length (requestNodes s r)"
    using run_submissions_votes(1) [OF dist assms(4,5)] by simp
  {
    assume h: "mset (map fst subs2) = mset (requestNodes s r) \<and>
       mset (map vote subs2) = mset (map vote subs) \<and> run_submissions r subs2 s = Inr s2"
    then have "subs2 \<noteq> []" using assms(3) by auto
    from round_consensus [OF dist assms(2) this] h 1
    show "filter is_consensus (new_events s s2) = filter is_consensus (new_events s s')"
      by simp
  }
  {
    assume h: "k < length subs \<and> run_submissions r (take k subs) s = Inr sk"
    have sub: "mset (map fst (take k subs)) \<subseteq># mset (pending r s)"
      unfolding p assms(4) [symmetric] take_map [symmetric]
      by (metis append_take_drop_id mset_append mset_subset_eq_add_left)
    have "length (pending r sk) + length (take k subs) = length (pending r s)"
      using run_submissions_count [OF dist sub] h by simp
    then have pk: "length (pending r sk) + k = length (requestNodes s r)"
      using h p by simp
    have "requestNodes sk = requestNodes s" using run_submissions_frame h by blast
    then show "length (submitted_results r sk) = k"
      using submitted_plus_pending [of r sk] pk by simp
    show "k < length (requestNodes s r)" using h len by simp
    have "mset (map fst (take k subs)) \<noteq> mset (pending r s)"
    proof
      assume "mset (map fst (take k subs)) = mset (pending r s)"
      then have "length (map fst (take k subs)) = length (pending r s)"
        by (metis size_mset)
      then show False using h p len by simp
    qed
    then show "filter is_consensus (new_events s sk) = []"
      using run_submissions_consensus [OF dist sub] h by simp
  }
qed

lemma requested_state_round:
  "\<forall>n \<in> set (requestNodes requested_state 1). \<not> isSubmitted (monitoringResults requested_state 1 n)"
  "\<exists>s'. run_submissions 1 [(11, 8, True, 200), (12, 9, True, 180), (13, 10, False, 5000)]
      requested_state = Inr s'"
  "\<exists>s'. run_submissions 1 [(13, 8, False, 5000), (11, 9, True, 200), (12, 10, True, 180)]
      requested_state = Inr s'"
  "\<exists>s'. run_submissions 1 [(11, 8, True, 200), (12, 9, True, 180)] requested_state = Inr s'"
  by (simp_all add: scenario_defs token_defs registerNode_def request_defs submit_defs)

theorem C5_consensus_independent_of_submission_order_witness:
  "reachable requested_state \<and>
   requestNodes requested_state 1 = [11, 12, 13] \<and>
   \<not> isSubmitted (monitoringResults requested_state 1 11) \<and>
   \<not> isSubmitted (monitoringResults requested_state 1 12) \<and>
   \<not> isSubmitted (monitoringResults requested_state 1 13) \<and>
   (\<exists>s'. run_submissions 1 [(11, 8, True, 200), (12, 9, True, 180), (13, 10, False, 5000)]
      requested_state = Inr s' \<and>
      filter is_consensus (new_events requested_state s') = [ConsensusReached 1 True 1793]) \<and>
   (\<exists>s2. run_submissions 1 [(13, 8, False, 5000), (11, 9, True, 200), (12, 10, True, 180)]
      requested_state = Inr s2 \<and>
      filter is_consensus (new_events requested_state s2) = [ConsensusReached 1 True 1793]) \<and>
   (\<exists>sk. run_submissions 1 [(11, 8, True, 200), (12, 9, True, 180)] requested_state = Inr sk \<and>
      length (submitted_results 1 sk) = 2 \<and>
      filter is_consensus (new_events requested_state sk) = [])"
proof -
  let ?subs = "[(11, 8, True, 200), (12, 9, True, 180), (13, 10, False, 5000)] :: submission list"
  let ?subs2 = "[(13, 8, False, 5000), (11, 9, True, 200), (12, 10, True, 180)] :: submission list"
  obtain s' where s': "run_submissions 1 ?subs requested_state = Inr s'"
    using requested_state_round(2) by blast
  obtain s2 where s2: "run_submissions 1 ?subs2 requested_state = Inr s2"
    using requested_state_round(3) by blast
  obtain sk where sk: "run_submissions 1 (take 2 ?subs) requested_state = Inr sk"
    using requested_state_round(4) by auto
  have m: "mset (map fst ?subs) = mset (requestNodes requested_state 1)"
    "mset (map fst ?subs2) = mset (requestNodes requested_state 1)"
    "mset (map vote ?subs2) = mset (map vote ?subs)"
    using requested_state_fields(1) by (simp_all add: vote_def)
  have v: "votes_consensusIsUp (consensusThreshold requested_state) (mset (map vote ?subs))"
    "votes_averageResponseTime (mset (map vote ?subs)) = 1793"
    using requested_state_fields(2)
    by (simp_all add: votes_consensusIsUp_def votes_averageResponseTime_def vote_def)
  note c = C5_consensus_independent_of_submission_order
    [OF reachable_scenarios(3) requested_state_round(1) _ m(1) s', of ?subs2 s2 2 sk]
  have 1: "filter is_consensus (new_events requested_state s') = [ConsensusReached 1 True 1793]"
    using c v by simp
  have 2: "filter is_consensus (new_events requested_state s2) = [ConsensusReached 1 True 1793]"
    using c m s2 1 by simp
  have 3: "length (submitted_results 1 sk) = 2 \<and>
      filter is_consensus (new_events requested_state sk) = []"
    using c sk by simp
  show ?thesis
    using reachable_scenarios(3) requested_state_fields(1) requested_state_round(1) s' s2 sk 1 2 3
    by auto
qed

end
